theory Spec2Isabelle
  imports Main "HOL-Library.Word"
begin

section \<open>The computation-graph node of magmadnn (include/compute/operation.h)\<close>

text \<open>
  The class template \<open>Operation<T>\<close> is embedded over an explicit store: nodes and tensors
  live at addresses, a pointer is an address, and every member function takes the address of
  \<open>this\<close> and the store, and returns the store it leaves behind. Dereferencing an address
  that holds no object is undefined in C++; here it is the result \<open>Inl InvalidPointer\<close>.
  The member functions are virtual; each is embedded as this class defines it, and the two
  pure virtual ones, \<open>_eval\<close> and \<open>_grad\<close>, are parameters.
\<close>

subsection \<open>Data\<close>

type_synonym ptr = nat

definition NULL :: ptr where
  "NULL = 0"

text \<open>The enumeration \<open>memory_t\<close> is declared outside the sources at hand.\<close>

typedecl memory_t

datatype fault = InvalidPointer | PastTheEnd | OutOfFuel

text \<open>
  Modelled from the spec: the class \<open>Tensor<T>\<close> (tensor/tensor.h) is not among the
  sources. The spec gives a tensor context fields for the stream and for the two library
  handles; \<open>Tensor::set_custream\<close> and \<open>Tensor::set_cublas_handle\<close>, the only two
  tensor methods that \<open>Operation\<close> calls, are taken to store their argument in the field
  of that name.
\<close>

record tensor =
  tensor_custream :: ptr
  tensor_cudnn_handle :: ptr
  tensor_cublas_handle :: ptr

text \<open>
  The value type \<open>CudaExecContext\<close> is used through its three accessors \<open>stream()\<close>,
  \<open>cublas_handle()\<close> and \<open>cudnn_handle()\<close> only.
\<close>

record CudaExecContext =
  ctx_stream :: ptr
  ctx_cublas_handle :: ptr
  ctx_cudnn_handle :: ptr

text \<open>
  The data members of \<open>Operation<T>\<close>, in the order of their declaration. The members
  \<open>custream_\<close>, \<open>cudnn_handle_\<close>, \<open>cublas_handle_\<close> and \<open>async_\<close> lose their
  trailing underscore, \<open>_grad_cache\<close> its leading one. A derived class is a record
  extension, so every function below is stated for \<open>'z operation_scheme\<close>.
\<close>

record operation =
  inputs :: "ptr list"
  consumers :: "ptr list"
  output_shape :: "32 word list"
  mem_type :: memory_t
  grad_cache :: "ptr \<rightharpoonup> ptr"
  name :: string
  output_tensor :: ptr
  needs_grad :: bool
  has_been_computed :: bool
  has_grad_been_computed :: bool
  custream :: ptr
  cudnn_handle :: ptr
  cublas_handle :: ptr
  async :: bool

record 'z heap =
  ops :: "ptr \<rightharpoonup> 'z operation_scheme"
  tensors :: "ptr \<rightharpoonup> tensor"

text \<open>
  The build configuration: whether \<open>MAGMADNN_HAVE_CUDA\<close> is defined, and the two handles
  of the global \<open>MAGMADNN_SETTINGS\<close> that the constructor reads in that case.
\<close>

record build =
  have_cuda :: bool
  settings_cudnn_handle :: ptr
  settings_cublas_handle :: ptr

subsection \<open>Store access and the containers of the standard library\<close>

definition update_op ::
  "ptr \<Rightarrow> ('z operation_scheme \<Rightarrow> 'z operation_scheme) \<Rightarrow> 'z heap \<Rightarrow> fault + 'z heap" where
  "update_op p f h =
     (case ops h p of
        None \<Rightarrow> Inl InvalidPointer
      | Some node \<Rightarrow> Inr (h\<lparr>ops := (ops h)(p \<mapsto> f node)\<rparr>))"

definition update_tensor ::
  "ptr \<Rightarrow> (tensor \<Rightarrow> tensor) \<Rightarrow> 'z heap \<Rightarrow> fault + 'z heap" where
  "update_tensor p g h =
     (case tensors h p of
        None \<Rightarrow> Inl InvalidPointer
      | Some t \<Rightarrow> Inr (h\<lparr>tensors := (tensors h)(p \<mapsto> g t)\<rparr>))"

text \<open>A \<open>for\<close> loop over a vector whose body may fault.\<close>

fun for_each :: "('a \<Rightarrow> 's \<Rightarrow> fault + 's) \<Rightarrow> 'a list \<Rightarrow> 's \<Rightarrow> fault + 's" where
  "for_each body [] s = Inr s"
| "for_each body (x # xs) s =
     (case body x s of Inl e \<Rightarrow> Inl e | Inr s' \<Rightarrow> for_each body xs s')"

text \<open>\<open>std::map::insert\<close> keeps an entry that is already there.\<close>

definition map_insert :: "('k \<rightharpoonup> 'v) \<Rightarrow> 'k \<Rightarrow> 'v \<Rightarrow> ('k \<rightharpoonup> 'v)" where
  "map_insert m k v = (case m k of None \<Rightarrow> m(k \<mapsto> v) | Some _ \<Rightarrow> m)"

text \<open>
  \<open>std::map::operator[]\<close> on a map of pointers: a missing key is inserted with a
  value-initialised (null) pointer; the result is the value now stored and the map.
\<close>

definition map_index :: "('k \<rightharpoonup> ptr) \<Rightarrow> 'k \<Rightarrow> ptr \<times> ('k \<rightharpoonup> ptr)" where
  "map_index m k = (case m k of None \<Rightarrow> (NULL, m(k \<mapsto> NULL)) | Some v \<Rightarrow> (v, m))"

subsection \<open>Shape queries\<close>

definition get_output_shape :: "'z operation_scheme \<Rightarrow> 32 word list" where
  "get_output_shape node = output_shape node"

text \<open>
  \<open>get_output_size\<close>: the accumulator \<open>size\<close> (here \<open>size_acc\<close>) is an \<open>unsigned int\<close>, so every
  multiplication is taken modulo \<open>2 ^ 32\<close>.
\<close>

fun size_loop :: "32 word list \<Rightarrow> 32 word \<Rightarrow> 32 word" where
  "size_loop [] size_acc = size_acc"
| "size_loop (d # ds) size_acc = size_loop ds (size_acc * d)"

definition get_output_size :: "'z operation_scheme \<Rightarrow> 32 word" where
  "get_output_size node = size_loop (output_shape node) 1"

subsection \<open>Forward evaluation and reset\<close>

text \<open>
  The pure virtual \<open>_eval\<close> is a parameter: it receives \<open>this\<close>, the flag and the
  store, and returns the tensor pointer and the store, or a fault of its own.
\<close>

type_synonym 'z eval_rule = "ptr \<Rightarrow> bool \<Rightarrow> 'z heap \<Rightarrow> fault + (ptr \<times> 'z heap)"

definition eval :: "'z eval_rule \<Rightarrow> ptr \<Rightarrow> bool \<Rightarrow> 'z heap \<Rightarrow> fault + (ptr \<times> 'z heap)" where
  "eval eval_rule this recompute h =
     (case ops h this of
        None \<Rightarrow> Inl InvalidPointer
      | Some node \<Rightarrow>
          if \<not> recompute \<and> has_been_computed node \<and> output_tensor node \<noteq> NULL
          then Inr (output_tensor node, h)
          else eval_rule this recompute
                 (h\<lparr>ops := (ops h)(this \<mapsto> node\<lparr>has_been_computed := True\<rparr>)\<rparr>))"

definition reset_op :: "'z operation_scheme \<Rightarrow> 'z operation_scheme" where
  "reset_op node = node\<lparr>has_been_computed := False, has_grad_been_computed := False\<rparr>"

definition reset :: "ptr \<Rightarrow> 'z heap \<Rightarrow> fault + 'z heap" where
  "reset this h = update_op this reset_op h"

subsection \<open>Gradients\<close>

text \<open>The pure virtual \<open>_grad\<close>, a parameter like \<open>_eval\<close>.\<close>

type_synonym 'z grad_rule = "ptr \<Rightarrow> ptr \<Rightarrow> ptr \<Rightarrow> ptr \<Rightarrow> 'z heap \<Rightarrow> fault + (ptr \<times> 'z heap)"

definition grad ::
  "'z grad_rule \<Rightarrow> ptr \<Rightarrow> ptr \<Rightarrow> ptr \<Rightarrow> ptr \<Rightarrow> bool \<Rightarrow> 'z heap \<Rightarrow> fault + (ptr \<times> 'z heap)" where
  "grad grad_rule this consumer var g recompute h =
     (case ops h this of
        None \<Rightarrow> Inl InvalidPointer
      | Some node \<Rightarrow>
          if \<not> recompute then
            (case map_index (grad_cache node) var of
               (ret, cache) \<Rightarrow>
                 let h' = h\<lparr>ops := (ops h)(this \<mapsto> node\<lparr>grad_cache := cache\<rparr>)\<rparr>
                 in if ret \<noteq> NULL then Inr (ret, h')
                    else grad_rule this consumer var g h')
          else grad_rule this consumer var g h)"

text \<open>
  \<open>get_grad_tensor\<close> reads \<open>find(wrt)->second\<close>: for a key that is not in the map,
  \<open>find\<close> returns the past-the-end iterator, and reading through it is undefined.
\<close>

definition get_grad_tensor :: "'z operation_scheme \<Rightarrow> ptr \<Rightarrow> fault + ptr" where
  "get_grad_tensor node wrt =
     (case grad_cache node wrt of None \<Rightarrow> Inl PastTheEnd | Some t \<Rightarrow> Inr t)"

subsection \<open>Consumers and construction\<close>

definition add_consumer_op :: "ptr \<Rightarrow> 'z operation_scheme \<Rightarrow> 'z operation_scheme" where
  "add_consumer_op consumer node = node\<lparr>consumers := consumers node @ [consumer]\<rparr>"

definition add_consumer :: "ptr \<Rightarrow> ptr \<Rightarrow> 'z heap \<Rightarrow> fault + 'z heap" where
  "add_consumer this consumer h = update_op this (add_consumer_op consumer) h"

definition get_consumers :: "'z operation_scheme \<Rightarrow> ptr list" where
  "get_consumers node = consumers node"

definition get_inputs :: "'z operation_scheme \<Rightarrow> ptr list" where
  "get_inputs node = inputs node"

definition get_output_tensor :: "'z operation_scheme \<Rightarrow> ptr" where
  "get_output_tensor node = output_tensor node"

text \<open>Sequencing of two steps, the second of which runs only if the first did not fault.\<close>

definition then_do :: "fault + 'a \<Rightarrow> ('a \<Rightarrow> fault + 'b) \<Rightarrow> fault + 'b" where
  "then_do m k = (case m of Inl e \<Rightarrow> Inl e | Inr x \<Rightarrow> k x)"

subsection \<open>Propagation of the CUDA execution context\<close>

text \<open>
  The four setters call themselves on every input. Nothing in the class keeps the graph
  acyclic, so the recursion is bounded by fuel: a call that is out of fuel returns
  \<open>Inl OutOfFuel\<close>.
\<close>

definition tensor_set_custream :: "ptr \<Rightarrow> ptr \<Rightarrow> 'z heap \<Rightarrow> fault + 'z heap" where
  "tensor_set_custream t v h = update_tensor t (\<lambda>x. x\<lparr>tensor_custream := v\<rparr>) h"

definition tensor_set_cublas_handle :: "ptr \<Rightarrow> ptr \<Rightarrow> 'z heap \<Rightarrow> fault + 'z heap" where
  "tensor_set_cublas_handle t v h = update_tensor t (\<lambda>x. x\<lparr>tensor_cublas_handle := v\<rparr>) h"

fun set_custream :: "nat \<Rightarrow> ptr \<Rightarrow> ptr \<Rightarrow> 'z heap \<Rightarrow> fault + 'z heap" where
  "set_custream 0 this v h = Inl OutOfFuel"
| "set_custream (Suc fuel) this v h =
     (case ops h this of
        None \<Rightarrow> Inl InvalidPointer
      | Some node \<Rightarrow>
          then_do (for_each (\<lambda>input_op s. set_custream fuel input_op v s) (inputs node) h)
            (\<lambda>h1. then_do
               (case ops h1 this of
                  None \<Rightarrow> Inl InvalidPointer
                | Some node1 \<Rightarrow>
                    if output_tensor node1 \<noteq> NULL
                    then tensor_set_custream (output_tensor node1) v h1
                    else Inr h1)
               (\<lambda>h2. update_op this (\<lambda>n. n\<lparr>custream := v\<rparr>) h2)))"

fun set_cudnn_handle :: "nat \<Rightarrow> ptr \<Rightarrow> ptr \<Rightarrow> 'z heap \<Rightarrow> fault + 'z heap" where
  "set_cudnn_handle 0 this v h = Inl OutOfFuel"
| "set_cudnn_handle (Suc fuel) this v h =
     (case ops h this of
        None \<Rightarrow> Inl InvalidPointer
      | Some node \<Rightarrow>
          then_do (for_each (\<lambda>input_op s. set_cudnn_handle fuel input_op v s) (inputs node) h)
            (\<lambda>h1. update_op this (\<lambda>n. n\<lparr>cudnn_handle := v\<rparr>) h1))"

fun set_cublas_handle :: "nat \<Rightarrow> ptr \<Rightarrow> ptr \<Rightarrow> 'z heap \<Rightarrow> fault + 'z heap" where
  "set_cublas_handle 0 this v h = Inl OutOfFuel"
| "set_cublas_handle (Suc fuel) this v h =
     (case ops h this of
        None \<Rightarrow> Inl InvalidPointer
      | Some node \<Rightarrow>
          then_do (for_each (\<lambda>input_op s. set_cublas_handle fuel input_op v s) (inputs node) h)
            (\<lambda>h1. then_do
               (case ops h1 this of
                  None \<Rightarrow> Inl InvalidPointer
                | Some node1 \<Rightarrow>
                    if output_tensor node1 \<noteq> NULL
                    then tensor_set_cublas_handle (output_tensor node1) v h1
                    else Inr h1)
               (\<lambda>h2. update_op this (\<lambda>n. n\<lparr>cublas_handle := v\<rparr>) h2)))"

fun set_async :: "nat \<Rightarrow> ptr \<Rightarrow> bool \<Rightarrow> 'z heap \<Rightarrow> fault + 'z heap" where
  "set_async 0 this v h = Inl OutOfFuel"
| "set_async (Suc fuel) this v h =
     (case ops h this of
        None \<Rightarrow> Inl InvalidPointer
      | Some node \<Rightarrow>
          then_do (for_each (\<lambda>input_op s. set_async fuel input_op v s) (inputs node) h)
            (\<lambda>h1. update_op this (\<lambda>n. n\<lparr>async := v\<rparr>) h1))"

definition cuda_exec_context ::
  "nat \<Rightarrow> ptr \<Rightarrow> CudaExecContext \<Rightarrow> 'z heap \<Rightarrow> fault + 'z heap" where
  "cuda_exec_context fuel this cuda_ctx h =
     then_do (set_custream fuel this (ctx_stream cuda_ctx) h)
       (\<lambda>h1. then_do (set_cublas_handle fuel this (ctx_cublas_handle cuda_ctx) h1)
          (\<lambda>h2. set_cudnn_handle fuel this (ctx_cudnn_handle cuda_ctx) h2))"

definition get_custream :: "'z operation_scheme \<Rightarrow> ptr" where
  "get_custream node = custream node"

definition get_cudnn_handle :: "'z operation_scheme \<Rightarrow> ptr" where
  "get_cudnn_handle node = cudnn_handle node"

definition get_cublas_handle :: "'z operation_scheme \<Rightarrow> ptr" where
  "get_cublas_handle node = cublas_handle node"

definition get_async :: "'z operation_scheme \<Rightarrow> bool" where
  "get_async node = async node"

text \<open>
  A node reports the context \<open>c\<close>: its three getters return the stream and the two
  handles of \<open>c\<close>.
\<close>

definition reports_context :: "CudaExecContext \<Rightarrow> 'z heap \<Rightarrow> ptr \<Rightarrow> bool" where
  "reports_context c h p \<longleftrightarrow>
     (case ops h p of
        None \<Rightarrow> False
      | Some node \<Rightarrow>
          get_custream node = ctx_stream c \<and> get_cublas_handle node = ctx_cublas_handle c
          \<and> get_cudnn_handle node = ctx_cudnn_handle c)"

subsection \<open>The constructor from a vector of inputs\<close>

text \<open>
  \<open>Operation(inputs, needs_grad)\<close>. The object is built in the storage at \<open>this\<close>; the
  members that the constructor does not initialise (\<open>mem_type\<close>, the two
  \<open>has_..._computed\<close> flags, the CUDA members, the members of a derived class) keep
  what the storage held, given as \<open>raw\<close>.
\<close>

definition ctor_body :: "bool \<Rightarrow> ptr \<Rightarrow> ptr \<Rightarrow> 'z heap \<Rightarrow> fault + 'z heap" where
  "ctor_body needs_grad_arg this vit h =
     then_do (if needs_grad_arg then add_consumer vit this h else Inr h)
       (\<lambda>h1. update_op this (\<lambda>n. n\<lparr>grad_cache := map_insert (grad_cache n) vit NULL\<rparr>) h1)"

definition Operation ::
  "build \<Rightarrow> nat \<Rightarrow> ptr \<Rightarrow> ptr list \<Rightarrow> bool \<Rightarrow> 'z operation_scheme \<Rightarrow> 'z heap
     \<Rightarrow> fault + 'z heap" where
  "Operation cfg fuel this inputs_arg needs_grad_arg raw h =
     (let node0 = raw\<lparr>inputs := inputs_arg, consumers := [], output_shape := [],
                       grad_cache := Map.empty, name := ''DefaultOpName'',
                       output_tensor := NULL, needs_grad := needs_grad_arg\<rparr>;
          h0 = h\<lparr>ops := (ops h)(this \<mapsto> node0)\<rparr>
      in then_do (for_each (ctor_body needs_grad_arg this) inputs_arg h0)
           (\<lambda>h1. if have_cuda cfg then
                    then_do (set_custream fuel this NULL h1)
                      (\<lambda>h2. then_do (set_cudnn_handle fuel this (settings_cudnn_handle cfg) h2)
                         (\<lambda>h3. then_do (set_cublas_handle fuel this (settings_cublas_handle cfg) h3)
                            (\<lambda>h4. set_async fuel this False h4)))
                  else Inr h1))"

subsection \<open>Sequences of calls\<close>

text \<open>
  The methods of the base class that change the store, \<open>eval\<close> apart, as values, so
  that a property can be stated for every sequence of calls. Each call names its
  receiver.
\<close>

datatype call =
    Reset
  | Add_consumer ptr
  | Grad ptr ptr ptr bool
  | Cuda_exec_context CudaExecContext
  | Set_custream ptr
  | Set_cudnn_handle ptr
  | Set_cublas_handle ptr
  | Set_async bool

fun invoke :: "'z grad_rule \<Rightarrow> nat \<Rightarrow> ptr \<times> call \<Rightarrow> 'z heap \<Rightarrow> fault + 'z heap" where
  "invoke grad_rule fuel (this, Reset) h = reset this h"
| "invoke grad_rule fuel (this, Add_consumer c) h = add_consumer this c h"
| "invoke grad_rule fuel (this, Grad c var g recompute) h =
     then_do (grad grad_rule this c var g recompute h) (\<lambda>(ret, h'). Inr h')"
| "invoke grad_rule fuel (this, Cuda_exec_context cuda_ctx) h = cuda_exec_context fuel this cuda_ctx h"
| "invoke grad_rule fuel (this, Set_custream v) h = set_custream fuel this v h"
| "invoke grad_rule fuel (this, Set_cudnn_handle v) h = set_cudnn_handle fuel this v h"
| "invoke grad_rule fuel (this, Set_cublas_handle v) h = set_cublas_handle fuel this v h"
| "invoke grad_rule fuel (this, Set_async v) h = set_async fuel this v h"

definition run :: "'z grad_rule \<Rightarrow> nat \<Rightarrow> (ptr \<times> call) list \<Rightarrow> 'z heap \<Rightarrow> fault + 'z heap" where
  "run grad_rule fuel calls h = for_each (invoke grad_rule fuel) calls h"

subsection \<open>Reachability through the input edges\<close>

inductive reaches :: "'z heap \<Rightarrow> ptr \<Rightarrow> ptr \<Rightarrow> bool" for h :: "'z heap" where
  reaches_self: "reaches h p p"
| reaches_input:
    "ops h root = Some node \<Longrightarrow> i \<in> set (inputs node) \<Longrightarrow> reaches h i p \<Longrightarrow> reaches h root p"

text \<open>
  \<open>closed n h p\<close>: below \<open>p\<close> the graph has depth less than \<open>n\<close>, every input pointer
  on the way holds a node and every non-null output tensor pointer holds a tensor.
\<close>

fun closed :: "nat \<Rightarrow> 'z heap \<Rightarrow> ptr \<Rightarrow> bool" where
  "closed 0 h p = False"
| "closed (Suc n) h p =
     (case ops h p of
        None \<Rightarrow> False
      | Some node \<Rightarrow>
          (\<forall>i \<in> set (inputs node). closed n h i)
          \<and> (output_tensor node \<noteq> NULL \<longrightarrow> tensors h (output_tensor node) \<noteq> None))"

subsection \<open>The common shape of the four setters\<close>

text \<open>
  \<open>broadcast f g\<close> is the recursion that the four setters share: \<open>f\<close> is the
  assignment to the member of the node, \<open>g\<close> the one to the field of the output tensor
  (\<open>None\<close> for the two setters that leave the tensor alone). It serves the proofs only.
\<close>

fun broadcast ::
  "('z operation_scheme \<Rightarrow> 'z operation_scheme) \<Rightarrow> (tensor \<Rightarrow> tensor) option
     \<Rightarrow> nat \<Rightarrow> ptr \<Rightarrow> 'z heap \<Rightarrow> fault + 'z heap" where
  "broadcast f g 0 this h = Inl OutOfFuel"
| "broadcast f g (Suc fuel) this h =
     (case ops h this of
        None \<Rightarrow> Inl InvalidPointer
      | Some node \<Rightarrow>
          then_do (for_each (\<lambda>input_op s. broadcast f g fuel input_op s) (inputs node) h)
            (\<lambda>h1. then_do
               (case g of
                  None \<Rightarrow> Inr h1
                | Some gt \<Rightarrow>
                    (case ops h1 this of
                       None \<Rightarrow> Inl InvalidPointer
                     | Some node1 \<Rightarrow>
                         if output_tensor node1 \<noteq> NULL
                         then update_tensor (output_tensor node1) gt h1
                         else Inr h1))
               (\<lambda>h2. update_op this f h2)))"

definition same_or :: "('a \<Rightarrow> 'a) \<Rightarrow> 'a option \<Rightarrow> 'a option \<Rightarrow> bool" where
  "same_or f x y \<longleftrightarrow> y = x \<or> y = map_option f x"

definition tensor_fun :: "(tensor \<Rightarrow> tensor) option \<Rightarrow> tensor \<Rightarrow> tensor" where
  "tensor_fun g = (case g of None \<Rightarrow> (\<lambda>t. t) | Some gt \<Rightarrow> gt)"

definition touched ::
  "('z operation_scheme \<Rightarrow> 'z operation_scheme) \<Rightarrow> (tensor \<Rightarrow> tensor) option
     \<Rightarrow> 'z heap \<Rightarrow> 'z heap \<Rightarrow> bool" where
  "touched f g h h' \<longleftrightarrow>
     (\<forall>p. same_or f (ops h p) (ops h' p)) \<and> (\<forall>t. same_or (tensor_fun g) (tensors h t) (tensors h' t))"

definition setter :: "('z operation_scheme \<Rightarrow> 'z operation_scheme) \<Rightarrow> bool" where
  "setter f \<longleftrightarrow>
     (\<forall>n. f (f n) = f n \<and> inputs (f n) = inputs n \<and> output_tensor (f n) = output_tensor n)"

definition tsetter :: "(tensor \<Rightarrow> tensor) option \<Rightarrow> bool" where
  "tsetter g \<longleftrightarrow> (\<forall>t. tensor_fun g (tensor_fun g t) = tensor_fun g t)"

definition updated ::
  "('z operation_scheme \<Rightarrow> 'z operation_scheme) \<Rightarrow> (tensor \<Rightarrow> tensor) option
     \<Rightarrow> 'z heap \<Rightarrow> 'z heap \<Rightarrow> ptr \<Rightarrow> bool" where
  "updated f g h h' p \<longleftrightarrow>
     (\<exists>node. ops h p = Some node \<and> ops h' p = Some (f node)
        \<and> (\<forall>gt. g = Some gt \<longrightarrow> output_tensor node \<noteq> NULL \<longrightarrow>
              (\<exists>t. tensors h (output_tensor node) = Some t
                 \<and> tensors h' (output_tensor node) = Some (gt t))))"

text \<open>A member that none of the four setters assigns keeps its value in every node.\<close>

definition context_free :: "('z operation_scheme \<Rightarrow> 'a) \<Rightarrow> bool" where
  "context_free F \<longleftrightarrow>
     (\<forall>n v. F (n\<lparr>custream := v\<rparr>) = F n) \<and> (\<forall>n v. F (n\<lparr>cublas_handle := v\<rparr>) = F n)
     \<and> (\<forall>n v. F (n\<lparr>cudnn_handle := v\<rparr>) = F n) \<and> (\<forall>n v. F (n\<lparr>async := v\<rparr>) = F n)"

subsection \<open>A test node type and a small graph\<close>

text \<open>
  A derived class for the examples: it adds a counter of the calls of its forward rule.
  Its \<open>_eval\<close> stores the tensor at address 10 as the output tensor and returns it; its
  \<open>_grad\<close> returns a null pointer.
\<close>

record test_op = operation +
  forward_calls :: nat

type_synonym test_heap = "unit test_op_ext heap"

definition fresh_op :: test_op where
  "fresh_op = \<lparr>inputs = [], consumers = [], output_shape = [], mem_type = undefined,
     grad_cache = Map.empty, name = [], output_tensor = NULL, needs_grad = False,
     has_been_computed = False, has_grad_been_computed = False,
     custream = 0, cudnn_handle = 0, cublas_handle = 0, async = False, forward_calls = 0\<rparr>"

definition test_eval :: "unit test_op_ext eval_rule" where
  "test_eval this recompute h =
     (case ops h this of
        None \<Rightarrow> Inl InvalidPointer
      | Some n \<Rightarrow>
          Inr (10, h\<lparr>ops := (ops h)(this \<mapsto> n\<lparr>output_tensor := 10,
                                                 forward_calls := Suc (forward_calls n)\<rparr>)\<rparr>))"

definition test_grad :: "unit test_op_ext grad_rule" where
  "test_grad this consumer var g h = Inr (NULL, h)"

definition zero_tensor :: tensor where
  "zero_tensor = \<lparr>tensor_custream = 0, tensor_cudnn_handle = 0, tensor_cublas_handle = 0\<rparr>"

text \<open>Two leaves at the addresses 1 and 2, neither of which requires a gradient.\<close>

definition two_leaves :: test_heap where
  "two_leaves = \<lparr>ops = [1 \<mapsto> fresh_op, 2 \<mapsto> fresh_op], tensors = [10 \<mapsto> zero_tensor]\<rparr>"

text \<open>The node that the constructor builds at address 3 from the inputs 1 and 2.\<close>

definition top_op :: test_op where
  "top_op = fresh_op\<lparr>inputs := [1, 2], grad_cache := [1 \<mapsto> NULL, 2 \<mapsto> NULL],
                      name := ''DefaultOpName'', needs_grad := True\<rparr>"

definition built_graph :: test_heap where
  "built_graph =
     \<lparr>ops = [1 \<mapsto> fresh_op\<lparr>consumers := [3]\<rparr>, 2 \<mapsto> fresh_op\<lparr>consumers := [3]\<rparr>,
             3 \<mapsto> top_op],
      tensors = [10 \<mapsto> zero_tensor]\<rparr>"

text \<open>The same graph once the node at 3 holds the tensor at 10 as its output tensor.\<close>

definition test_graph :: test_heap where
  "test_graph =
     \<lparr>ops = [1 \<mapsto> fresh_op\<lparr>consumers := [3]\<rparr>, 2 \<mapsto> fresh_op\<lparr>consumers := [3]\<rparr>,
             3 \<mapsto> top_op\<lparr>output_tensor := 10\<rparr>],
      tensors = [10 \<mapsto> zero_tensor]\<rparr>"

definition test_graph_computed :: test_heap where
  "test_graph_computed =
     \<lparr>ops = [1 \<mapsto> fresh_op\<lparr>consumers := [3]\<rparr>, 2 \<mapsto> fresh_op\<lparr>consumers := [3]\<rparr>,
             3 \<mapsto> top_op\<lparr>output_tensor := 10, has_been_computed := True, forward_calls := 1\<rparr>],
      tensors = [10 \<mapsto> zero_tensor]\<rparr>"

text \<open>What the constructor builds at address 3 from the two leaves with \<open>needs_grad = false\<close>.\<close>

definition unlisted_graph :: test_heap where
  "unlisted_graph =
     \<lparr>ops = [1 \<mapsto> fresh_op, 2 \<mapsto> fresh_op,
             3 \<mapsto> fresh_op\<lparr>inputs := [1, 2], grad_cache := [1 \<mapsto> NULL, 2 \<mapsto> NULL],
                               name := ''DefaultOpName''\<rparr>],
      tensors = [10 \<mapsto> zero_tensor]\<rparr>"

definition no_cuda :: build where
  "no_cuda = \<lparr>have_cuda = False, settings_cudnn_handle = 0, settings_cublas_handle = 0\<rparr>"

definition with_cuda :: build where
  "with_cuda = \<lparr>have_cuda = True, settings_cudnn_handle = 21, settings_cublas_handle = 22\<rparr>"

definition test_ctx :: CudaExecContext where
  "test_ctx = \<lparr>ctx_stream = 7, ctx_cublas_handle = 8, ctx_cudnn_handle = 9\<rparr>"

text \<open>The test graph after a context has been applied at the node 3.\<close>

definition in_context :: "CudaExecContext \<Rightarrow> test_op \<Rightarrow> test_op" where
  "in_context c node =
     node\<lparr>custream := ctx_stream c, cublas_handle := ctx_cublas_handle c,
          cudnn_handle := ctx_cudnn_handle c\<rparr>"

definition test_graph_in :: "CudaExecContext \<Rightarrow> test_heap" where
  "test_graph_in c =
     \<lparr>ops = [1 \<mapsto> in_context c (fresh_op\<lparr>consumers := [3]\<rparr>),
             2 \<mapsto> in_context c (fresh_op\<lparr>consumers := [3]\<rparr>),
             3 \<mapsto> in_context c (top_op\<lparr>output_tensor := 10\<rparr>)],
      tensors = [10 \<mapsto> zero_tensor\<lparr>tensor_custream := ctx_stream c,
                                       tensor_cublas_handle := ctx_cublas_handle c\<rparr>]\<rparr>"

definition other_ctx :: CudaExecContext where
  "other_ctx = \<lparr>ctx_stream = 17, ctx_cublas_handle = 18, ctx_cudnn_handle = 19\<rparr>"

text \<open>What the constructor builds at address 3 from the input 1 listed twice.\<close>

definition twice_listed :: test_heap where
  "twice_listed =
     \<lparr>ops = [1 \<mapsto> fresh_op\<lparr>consumers := [3, 3]\<rparr>, 2 \<mapsto> fresh_op,
             3 \<mapsto> fresh_op\<lparr>inputs := [1, 1], grad_cache := [1 \<mapsto> NULL],
                               name := ''DefaultOpName'', needs_grad := True\<rparr>],
      tensors = [10 \<mapsto> zero_tensor]\<rparr>"

section \<open>Properties\<close>

subsection \<open>The size of the output\<close>

lemma size_loop_prod: "size_loop ds acc = acc * prod_list ds"
  by (induction ds arbitrary: acc) (simp_all add: mult.assoc)

lemma unat_prod_list: "unat (prod_list (ds :: 32 word list)) = prod_list (map unat ds) mod 2 ^ 32"
proof (induction ds)
  case Nil
  show ?case by simp
next
  case (Cons d ds)
  have "unat (d * prod_list ds) = (unat d * unat (prod_list ds)) mod 2 ^ 32"
    by (simp add: unat_word_ariths)
  also have "\<dots> = (unat d * (prod_list (map unat ds) mod 2 ^ 32)) mod 2 ^ 32"
    by (simp only: Cons.IH)
  also have "\<dots> = (unat d * prod_list (map unat ds)) mod 2 ^ 32"
    by (rule mod_mult_right_eq)
  finally show ?case by simp
qed

text \<open>
  C10 fails on the code: for the shape \<open>[65536, 65536]\<close> the product of the entries is
  \<open>2 ^ 32\<close>, and \<open>get_output_size\<close> returns 0.
\<close>

theorem get_output_size_wraps:
  "output_shape (fresh_op\<lparr>output_shape := [65536, 65536]\<rparr>) = [65536, 65536]
   \<and> get_output_size (fresh_op\<lparr>output_shape := [65536, 65536]\<rparr>) = 0
   \<and> prod_list (map unat [65536, 65536 :: 32 word]) = 4294967296"
  by (simp add: get_output_size_def)

text \<open>
  C10, as amended. \<open>get_output_size\<close> returns the product of the entries of the declared
  output shape as \<open>unsigned int\<close> computes it: the product modulo \<open>2 ^ 32\<close>, which is
  the product itself whenever that is below \<open>2 ^ 32\<close>. For the empty shape it returns 1.
\<close>

theorem get_output_size_product:
  "get_output_size node = prod_list (output_shape node)
   \<and> unat (get_output_size node) = prod_list (map unat (output_shape node)) mod 2 ^ 32
   \<and> (prod_list (map unat (output_shape node)) < 2 ^ 32 \<longrightarrow>
        unat (get_output_size node) = prod_list (map unat (output_shape node)))
   \<and> get_output_size (node\<lparr>output_shape := []\<rparr>) = 1"
  by (simp add: get_output_size_def size_loop_prod unat_prod_list)

text \<open>The amended statement at the shape \<open>[2, 3]\<close>.\<close>

theorem get_output_size_product_witness:
  "prod_list (map unat [2, 3 :: 32 word]) < 2 ^ 32
   \<and> unat (get_output_size (fresh_op\<lparr>output_shape := [2, 3]\<rparr>)) = 6
   \<and> get_output_size (fresh_op\<lparr>output_shape := [2, 3]\<rparr>) = 6"
proof -
  have a: "prod_list (map unat [2, 3 :: 32 word]) < 2 ^ 32" by simp
  have b: "output_shape (fresh_op\<lparr>output_shape := [2, 3]\<rparr>) = [2, 3]" by simp
  from get_output_size_product [of "fresh_op\<lparr>output_shape := [2, 3]\<rparr>"] a
  show ?thesis unfolding b by simp
qed

subsection \<open>The recursion of the setters\<close>

lemma then_do_Inr: "then_do m k = Inr y \<longleftrightarrow> (\<exists>x. m = Inr x \<and> k x = Inr y)"
  by (cases m) (simp_all add: then_do_def)

lemma same_or_refl: "same_or f x x"
  by (simp add: same_or_def)

lemma same_or_trans:
  "(\<And>n. f (f n) = f n) \<Longrightarrow> same_or f x y \<Longrightarrow> same_or f y z \<Longrightarrow> same_or f x z"
  by (cases x) (auto simp: same_or_def)

lemma touched_refl: "touched f g h h"
  by (simp add: touched_def same_or_refl)

lemma touched_trans:
  assumes "setter f" and "tsetter g" and "touched f g a b" and "touched f g b c"
  shows "touched f g a c"
proof -
  have f: "\<And>n. f (f n) = f n" using assms(1) by (simp add: setter_def)
  have g: "\<And>t. tensor_fun g (tensor_fun g t) = tensor_fun g t" using assms(2) by (simp add: tsetter_def)
  show ?thesis
    unfolding touched_def
  proof (intro conjI allI)
    fix p show "same_or f (ops a p) (ops c p)"
      using assms(3,4) same_or_trans [of f, OF f] unfolding touched_def by blast
  next
    fix t show "same_or (tensor_fun g) (tensors a t) (tensors c t)"
      using assms(3,4) same_or_trans [of "tensor_fun g", OF g] unfolding touched_def by blast
  qed
qed

lemma update_op_touched: "update_op p f h = Inr h' \<Longrightarrow> touched f g h h'"
  by (auto simp: update_op_def touched_def same_or_def split: option.splits)

lemma update_tensor_touched: "update_tensor t gt h = Inr h' \<Longrightarrow> touched f (Some gt) h h'"
  by (auto simp: update_tensor_def touched_def same_or_def tensor_fun_def split: option.splits)

lemma for_each_rel:
  assumes step: "\<And>x s s'. x \<in> set xs \<Longrightarrow> body x s = Inr s' \<Longrightarrow> R s s'"
    and refl: "\<And>s. R s s"
    and trans: "\<And>a b c. R a b \<Longrightarrow> R b c \<Longrightarrow> R a c"
    and run: "for_each body xs s = Inr s'"
  shows "R s s'"
  using step run
proof (induction xs arbitrary: s)
  case Nil
  then show ?case by (simp add: refl)
next
  case (Cons x xs)
  from Cons.prems(2) obtain s1 where s1: "body x s = Inr s1" and rest: "for_each body xs s1 = Inr s'"
    by (auto split: sum.splits)
  have "R s s1" using Cons.prems(1) [of x] s1 by simp
  moreover have "R s1 s'"
    by (rule Cons.IH [OF _ rest], rule Cons.prems(1)) simp_all
  ultimately show ?case by (rule trans)
qed

lemma broadcast_touched:
  assumes "setter f" and "tsetter g"
  shows "broadcast f g n this h = Inr h' \<Longrightarrow> touched f g h h'"
proof (induction n arbitrary: this h h')
  case 0
  then show ?case by simp
next
  case (Suc n)
  from Suc.prems obtain node h1 h2 where
    node: "ops h this = Some node"
    and loop: "for_each (\<lambda>i s. broadcast f g n i s) (inputs node) h = Inr h1"
    and tens: "(case g of None \<Rightarrow> Inr h1 | Some gt \<Rightarrow> (case ops h1 this of None \<Rightarrow> Inl InvalidPointer
                 | Some node1 \<Rightarrow> if output_tensor node1 \<noteq> NULL then update_tensor (output_tensor node1) gt h1 else Inr h1)) = Inr h2"
    and fin: "update_op this f h2 = Inr h'"
    by (cases "ops h this") (auto simp: then_do_Inr)
  have a: "touched f g h h1"
    by (rule for_each_rel [where body = "\<lambda>i s. broadcast f g n i s", OF _ touched_refl touched_trans [OF assms] loop])
       (rule Suc.IH)
  have b: "touched f g h1 h2"
    using tens by (auto simp: touched_refl update_tensor_touched split: option.splits if_splits)
  have c: "touched f g h2 h'"
    using fin by (rule update_op_touched)
  show ?case
    using touched_trans [OF assms a touched_trans [OF assms b c]] .
qed




lemma touched_ops_cases:
  assumes "touched f g h h'"
  shows "ops h p = None \<and> ops h' p = None
         \<or> (\<exists>n. ops h p = Some n \<and> (ops h' p = Some n \<or> ops h' p = Some (f n)))"
  using assms by (cases "ops h p") (auto simp: touched_def same_or_def dest: spec [of _ p])

lemma touched_tensors_cases:
  assumes "touched f g h h'"
  shows "tensors h t = None \<and> tensors h' t = None
         \<or> (\<exists>x. tensors h t = Some x \<and> (tensors h' t = Some x \<or> tensors h' t = Some (tensor_fun g x)))"
  using assms by (cases "tensors h t") (auto simp: touched_def same_or_def dest: spec [of _ t])

lemma touched_inputs:
  assumes "setter f" and "touched f g h h'"
  shows "map_option inputs (ops h' p) = map_option inputs (ops h p)"
  using touched_ops_cases [OF assms(2), of p] assms(1) by (auto simp: setter_def)

lemma touched_output_tensor:
  assumes "setter f" and "touched f g h h'"
  shows "map_option output_tensor (ops h' p) = map_option output_tensor (ops h p)"
  using touched_ops_cases [OF assms(2), of p] assms(1) by (auto simp: setter_def)

lemma same_inputs_reaches:
  assumes same: "\<And>q. map_option inputs (ops h' q) = map_option inputs (ops h q)"
  shows "reaches h r p \<Longrightarrow> reaches h' r p"
proof (induction rule: reaches.induct)
  case (reaches_self p)
  show ?case by (rule reaches.reaches_self)
next
  case (reaches_input root node i p)
  from same [of root] reaches_input.hyps(1) obtain node' where
    "ops h' root = Some node'" and "inputs node' = inputs node"
    by (cases "ops h' root") auto
  then show ?case
    using reaches_input.hyps(2) reaches_input.IH by (auto intro: reaches.reaches_input)
qed

lemma touched_reaches:
  assumes "setter f" and "touched f g h h'"
  shows "reaches h' r p \<longleftrightarrow> reaches h r p"
proof
  assume "reaches h' r p"
  then show "reaches h r p"
    by (rule same_inputs_reaches [rotated]) (simp add: touched_inputs [OF assms])
next
  assume "reaches h r p"
  then show "reaches h' r p"
    by (rule same_inputs_reaches [rotated]) (simp add: touched_inputs [OF assms])
qed

lemma updated_then_touched:
  assumes "setter f" and "tsetter g" and "updated f g h h1 p" and "touched f g h1 h2"
  shows "updated f g h h2 p"
proof -
  from assms(3) obtain node where
    n: "ops h p = Some node" "ops h1 p = Some (f node)"
    and t: "\<And>gt. g = Some gt \<Longrightarrow> output_tensor node \<noteq> NULL \<Longrightarrow>
              \<exists>t. tensors h (output_tensor node) = Some t \<and> tensors h1 (output_tensor node) = Some (gt t)"
    unfolding updated_def by blast
  have "ops h2 p = Some (f node)"
    using touched_ops_cases [OF assms(4), of p] n(2) assms(1) by (auto simp: setter_def)
  moreover have "\<exists>t. tensors h (output_tensor node) = Some t \<and> tensors h2 (output_tensor node) = Some (gt t)"
    if "g = Some gt" and "output_tensor node \<noteq> NULL" for gt
  proof -
    from t [OF that] obtain x where x: "tensors h (output_tensor node) = Some x"
      "tensors h1 (output_tensor node) = Some (gt x)" by blast
    have "gt (gt x) = gt x" using assms(2) that(1) by (simp add: tsetter_def tensor_fun_def)
    then have "tensors h2 (output_tensor node) = Some (gt x)"
      using touched_tensors_cases [OF assms(4), of "output_tensor node"] x(2) that(1)
      by (auto simp: tensor_fun_def)
    with x(1) show ?thesis by blast
  qed
  ultimately show ?thesis using n(1) unfolding updated_def by blast
qed

lemma touched_then_updated:
  assumes "setter f" and "tsetter g" and "touched f g h h1" and "updated f g h1 h2 p"
  shows "updated f g h h2 p"
proof -
  from assms(4) obtain node1 where
    n: "ops h1 p = Some node1" "ops h2 p = Some (f node1)"
    and t: "\<And>gt. g = Some gt \<Longrightarrow> output_tensor node1 \<noteq> NULL \<Longrightarrow>
              \<exists>t. tensors h1 (output_tensor node1) = Some t \<and> tensors h2 (output_tensor node1) = Some (gt t)"
    unfolding updated_def by blast
  from touched_ops_cases [OF assms(3), of p] n(1) obtain node where
    node: "ops h p = Some node" "node1 = node \<or> node1 = f node" by auto
  have fn: "f node1 = f node" and ot: "output_tensor node1 = output_tensor node"
    using node(2) assms(1) by (auto simp: setter_def)
  have "\<exists>t. tensors h (output_tensor node) = Some t \<and> tensors h2 (output_tensor node) = Some (gt t)"
    if "g = Some gt" and "output_tensor node \<noteq> NULL" for gt
  proof -
    from t [OF that(1)] that(2) ot obtain x1 where x1: "tensors h1 (output_tensor node) = Some x1"
      "tensors h2 (output_tensor node) = Some (gt x1)" by auto
    from touched_tensors_cases [OF assms(3), of "output_tensor node"] x1(1) that(1) obtain x where
      x: "tensors h (output_tensor node) = Some x" "x1 = x \<or> x1 = gt x"
      by (auto simp: tensor_fun_def)
    have "gt (gt x) = gt x" using assms(2) that(1) by (simp add: tsetter_def tensor_fun_def)
    with x(2) have "gt x1 = gt x" by auto
    with x(1) x1(2) show ?thesis by simp
  qed
  then show ?thesis using node(1) n(2) fn unfolding updated_def by auto
qed


lemma for_each_updated:
  assumes f: "setter f" and g: "tsetter g"
    and body: "\<And>x s s'. body x s = Inr s' \<Longrightarrow>
                 touched f g s s' \<and> (\<forall>p. reaches s x p \<longrightarrow> updated f g s s' p)"
  shows "for_each body xs h = Inr h1 \<Longrightarrow> i \<in> set xs \<Longrightarrow> reaches h i p \<Longrightarrow> updated f g h h1 p"
proof (induction xs arbitrary: h)
  case Nil
  then show ?case by simp
next
  case (Cons x xs)
  from Cons.prems(1) obtain ha where ha: "body x h = Inr ha" and rest: "for_each body xs ha = Inr h1"
    by (auto split: sum.splits)
  have t1: "touched f g h ha" using body [OF ha] by simp
  have t2: "touched f g ha h1"
    by (rule for_each_rel [where body = body, OF _ touched_refl touched_trans [OF f g] rest])
       (simp add: body)
  show ?case
  proof (cases "i = x")
    case True
    with Cons.prems(3) body [OF ha] have "updated f g h ha p" by simp
    then show ?thesis using t2 by (rule updated_then_touched [OF f g])
  next
    case False
    with Cons.prems(2) have "i \<in> set xs" by simp
    moreover have "reaches ha i p" using Cons.prems(3) by (simp add: touched_reaches [OF f t1])
    ultimately have "updated f g ha h1 p" using Cons.IH [OF rest] by simp
    with t1 show ?thesis by (rule touched_then_updated [OF f g])
  qed
qed

lemma broadcast_updated:
  assumes f: "setter f" and g: "tsetter g"
  shows "broadcast f g n this h = Inr h' \<Longrightarrow> reaches h this p \<Longrightarrow> updated f g h h' p"
proof (induction n arbitrary: this h h' p)
  case 0
  then show ?case by simp
next
  case (Suc n)
  from Suc.prems(1) obtain node h1 h2 where
    node: "ops h this = Some node"
    and loop: "for_each (\<lambda>i s. broadcast f g n i s) (inputs node) h = Inr h1"
    and tens: "(case g of None \<Rightarrow> Inr h1 | Some gt \<Rightarrow> (case ops h1 this of None \<Rightarrow> Inl InvalidPointer
                 | Some node1 \<Rightarrow> if output_tensor node1 \<noteq> NULL then update_tensor (output_tensor node1) gt h1 else Inr h1)) = Inr h2"
    and fin: "update_op this f h2 = Inr h'"
    by (cases "ops h this") (auto simp: then_do_Inr)
  have body: "touched f g s s' \<and> (\<forall>p. reaches s x p \<longrightarrow> updated f g s s' p)"
    if "broadcast f g n x s = Inr s'" for x s s'
    using that broadcast_touched [OF f g that] Suc.IH by blast
  have a: "touched f g h h1"
    by (rule for_each_rel [where body = "\<lambda>i s. broadcast f g n i s", OF _ touched_refl touched_trans [OF f g] loop])
       (rule broadcast_touched [OF f g])
  have b: "touched f g h1 h2"
    using tens by (auto simp: touched_refl update_tensor_touched split: option.splits if_splits)
  have c: "touched f g h2 h'"
    using fin by (rule update_op_touched)
  have bc: "touched f g h1 h'" by (rule touched_trans [OF f g b c])
  from Suc.prems(2) show ?case
  proof (cases rule: reaches.cases)
    case reaches_self
    have "updated f g h1 h' this"
    proof -
      from touched_ops_cases [OF a, of this] node obtain node1 where
        n1: "ops h1 this = Some node1" by auto
      from fin obtain node2 where n2: "ops h2 this = Some node2" and h': "h' = h2\<lparr>ops := (ops h2)(this \<mapsto> f node2)\<rparr>"
        by (auto simp: update_op_def split: option.splits)
      have fn: "f node2 = f node1"
        using touched_ops_cases [OF b, of this] n1 n2 f by (auto simp: setter_def)
      have "\<exists>t. tensors h1 (output_tensor node1) = Some t \<and> tensors h' (output_tensor node1) = Some (gt t)"
        if "g = Some gt" and "output_tensor node1 \<noteq> NULL" for gt
        using tens that n1 h' by (auto simp: update_tensor_def split: option.splits)
      then show ?thesis
        using n1 n2 h' fn unfolding updated_def by auto
    qed
    with a have "updated f g h h' this" by (rule touched_then_updated [OF f g])
    with reaches_self show ?thesis by simp
  next
    case (reaches_input node' i)
    with node have i: "i \<in> set (inputs node)" by simp
    have "updated f g h h1 p"
      by (rule for_each_updated [where body = "\<lambda>i s. broadcast f g n i s", OF f g body loop i reaches_input(3)])
    then show ?thesis using bc by (rule updated_then_touched [OF f g])
  qed
qed

lemma touched_closed:
  assumes f: "setter f" and t: "touched f g h h'"
  shows "closed n h' p \<longleftrightarrow> closed n h p"
proof (induction n arbitrary: p)
  case 0
  show ?case by simp
next
  case (Suc n)
  show ?case
  proof (cases "ops h p")
    case None
    with touched_ops_cases [OF t, of p] show ?thesis by auto
  next
    case (Some node)
    with touched_ops_cases [OF t, of p] obtain node' where
      n': "ops h' p = Some node'" "node' = node \<or> node' = f node" by auto
    then have eq: "inputs node' = inputs node" "output_tensor node' = output_tensor node"
      using f by (auto simp: setter_def)
    have "tensors h' x \<noteq> None \<longleftrightarrow> tensors h x \<noteq> None" for x
      using touched_tensors_cases [OF t, of x] by auto
    then show ?thesis using Some n'(1) eq Suc.IH by simp
  qed
qed

lemma for_each_returns:
  assumes f: "setter f" and g: "tsetter g"
    and body: "\<And>x s. x \<in> set xs \<Longrightarrow> closed n s x \<Longrightarrow> \<exists>s'. body x s = Inr s' \<and> touched f g s s'"
  shows "\<forall>x \<in> set xs. closed n h x \<Longrightarrow> \<exists>h1. for_each body xs h = Inr h1"
  using body
proof (induction xs arbitrary: h)
  case Nil
  show ?case by simp
next
  case (Cons x xs)
  from Cons.prems(1) Cons.prems(2) [of x h] obtain ha where
    ha: "body x h = Inr ha" "touched f g h ha" by auto
  have "\<forall>y \<in> set xs. closed n ha y"
    using Cons.prems(1) by (simp add: touched_closed [OF f ha(2)])
  then have "\<exists>h1. for_each body xs ha = Inr h1"
    by (rule Cons.IH) (rule Cons.prems(2), simp_all)
  with ha(1) show ?case by simp
qed

lemma broadcast_returns:
  assumes f: "setter f" and g: "tsetter g"
  shows "closed n h this \<Longrightarrow> \<exists>h'. broadcast f g n this h = Inr h'"
proof (induction n arbitrary: this h)
  case 0
  then show ?case by simp
next
  case (Suc n)
  from Suc.prems obtain node where
    node: "ops h this = Some node"
    and ins: "\<forall>i \<in> set (inputs node). closed n h i"
    and out: "output_tensor node \<noteq> NULL \<longrightarrow> tensors h (output_tensor node) \<noteq> None"
    by (cases "ops h this") auto
  have body: "\<exists>s'. broadcast f g n x s = Inr s' \<and> touched f g s s'" if "closed n s x" for x s
    using Suc.IH [OF that] broadcast_touched [OF f g] by blast
  from for_each_returns [where body = "\<lambda>i s. broadcast f g n i s", OF f g body ins]
  obtain h1 where loop: "for_each (\<lambda>i s. broadcast f g n i s) (inputs node) h = Inr h1" by blast
  have a: "touched f g h h1"
    by (rule for_each_rel [where body = "\<lambda>i s. broadcast f g n i s", OF _ touched_refl touched_trans [OF f g] loop])
       (rule broadcast_touched [OF f g])
  from touched_ops_cases [OF a, of this] node obtain node1 where
    n1: "ops h1 this = Some node1" "node1 = node \<or> node1 = f node" by auto
  then have ot: "output_tensor node1 = output_tensor node" using f by (auto simp: setter_def)
  have "tensors h1 x \<noteq> None \<longleftrightarrow> tensors h x \<noteq> None" for x
    using touched_tensors_cases [OF a, of x] by auto
  with out ot have out1: "output_tensor node1 \<noteq> NULL \<longrightarrow> tensors h1 (output_tensor node1) \<noteq> None"
    by simp
  have "\<exists>h2. (case g of None \<Rightarrow> Inr h1 | Some gt \<Rightarrow> (case ops h1 this of None \<Rightarrow> Inl InvalidPointer
                 | Some node1 \<Rightarrow> if output_tensor node1 \<noteq> NULL then update_tensor (output_tensor node1) gt h1 else Inr h1)) = Inr h2
              \<and> ops h2 = ops h1"
    using n1(1) out1 by (auto simp: update_tensor_def split: option.splits)
  then obtain h2 where tens: "(case g of None \<Rightarrow> Inr h1 | Some gt \<Rightarrow> (case ops h1 this of None \<Rightarrow> Inl InvalidPointer
                 | Some node1 \<Rightarrow> if output_tensor node1 \<noteq> NULL then update_tensor (output_tensor node1) gt h1 else Inr h1)) = Inr h2"
    and o2: "ops h2 = ops h1" by blast
  have "\<exists>h'. update_op this f h2 = Inr h'"
    using n1(1) o2 by (simp add: update_op_def)
  with node loop tens show ?case by (auto simp: then_do_def)
qed

lemma touched_field:
  assumes "touched f g h h'" and "\<And>n. F (f n) = F n"
  shows "map_option F (ops h' p) = map_option F (ops h p)"
  using touched_ops_cases [OF assms(1), of p] assms(2) by auto

lemma touched_tensor_field:
  assumes "touched f g h h'" and "\<And>t. F (tensor_fun g t) = F t"
  shows "map_option F (tensors h' x) = map_option F (tensors h x)"
  using touched_tensors_cases [OF assms(1), of x] assms(2) by auto

lemma fold_map_insert:
  "fold (\<lambda>k m. map_insert m k v) ks m = (\<lambda>k. if k \<in> set ks \<and> m k = None then Some v else m k)"
proof (induction ks arbitrary: m)
  case Nil
  show ?case by simp
next
  case (Cons a ks)
  have "fold (\<lambda>k m. map_insert m k v) (a # ks) m = fold (\<lambda>k m. map_insert m k v) ks (map_insert m a v)"
    by simp
  also have "\<dots> = (\<lambda>k. if k \<in> set ks \<and> map_insert m a v k = None then Some v else map_insert m a v k)"
    by (rule Cons.IH)
  also have "\<dots> = (\<lambda>k. if k \<in> set (a # ks) \<and> m k = None then Some v else m k)"
    by (rule ext) (auto simp: map_insert_def split: option.splits)
  finally show ?case .
qed

lemma ctor_body_ops:
  assumes "ctor_body ng this vit h = Inr h'"
  shows "ops h' p = map_option
           (\<lambda>n. n\<lparr>consumers := consumers n @ (if ng \<and> p = vit then [this] else []),
                   grad_cache := (if p = this then map_insert (grad_cache n) vit NULL else grad_cache n)\<rparr>)
           (ops h p)"
    and "tensors h' = tensors h"
  using assms
  by (auto simp: ctor_body_def then_do_Inr add_consumer_def add_consumer_op_def update_op_def
                 option.map_ident
           split: option.splits if_splits)

lemma ctor_loop_ops:
  "for_each (ctor_body ng this) ins h = Inr h1 \<Longrightarrow>
     ops h1 p = map_option
       (\<lambda>n. n\<lparr>consumers := consumers n @ replicate (if ng then count_list ins p else 0) this,
               grad_cache := (if p = this then fold (\<lambda>k m. map_insert m k NULL) ins (grad_cache n)
                              else grad_cache n)\<rparr>)
       (ops h p)
     \<and> tensors h1 = tensors h"
proof (induction ins arbitrary: h)
  case Nil
  then show ?case by (cases "ops h p") simp_all
next
  case (Cons vit ins)
  from Cons.prems obtain ha where ha: "ctor_body ng this vit h = Inr ha"
    and rest: "for_each (ctor_body ng this) ins ha = Inr h1"
    by (auto split: sum.splits)
  show ?case
    using Cons.IH [OF rest] ctor_body_ops(1) [OF ha, of p] ctor_body_ops(2) [OF ha]
    by (cases "ops h p") (auto simp: replicate_app_Cons_same)
qed

lemma set_custream_broadcast:
  "set_custream n this v =
     broadcast (\<lambda>n. n\<lparr>custream := v\<rparr>) (Some (\<lambda>x. x\<lparr>tensor_custream := v\<rparr>)) n this"
  by (induction n arbitrary: this)
     (rule ext, simp add: tensor_set_custream_def cong: option.case_cong if_cong)+

lemma set_cublas_handle_broadcast:
  "set_cublas_handle n this v =
     broadcast (\<lambda>n. n\<lparr>cublas_handle := v\<rparr>) (Some (\<lambda>x. x\<lparr>tensor_cublas_handle := v\<rparr>)) n this"
  by (induction n arbitrary: this)
     (rule ext, simp add: tensor_set_cublas_handle_def cong: option.case_cong if_cong)+

lemma set_cudnn_handle_broadcast:
  "set_cudnn_handle n this v = broadcast (\<lambda>n. n\<lparr>cudnn_handle := v\<rparr>) None n this"
  by (induction n arbitrary: this)
     (rule ext, simp add: then_do_def cong: option.case_cong if_cong)+

lemma set_async_broadcast:
  "set_async n this v = broadcast (\<lambda>n. n\<lparr>async := v\<rparr>) None n this"
  by (induction n arbitrary: this)
     (rule ext, simp add: then_do_def cong: option.case_cong if_cong)+

lemma setter_fields:
  "setter (\<lambda>n. n\<lparr>custream := v\<rparr>)" "setter (\<lambda>n. n\<lparr>cublas_handle := v\<rparr>)"
  "setter (\<lambda>n. n\<lparr>cudnn_handle := v\<rparr>)" "setter (\<lambda>n. n\<lparr>async := b\<rparr>)"
  by (simp_all add: setter_def)

lemma tsetter_fields:
  "tsetter (Some (\<lambda>x. x\<lparr>tensor_custream := v\<rparr>))" "tsetter (Some (\<lambda>x. x\<lparr>tensor_cublas_handle := v\<rparr>))"
  "tsetter None"
  by (simp_all add: tsetter_def tensor_fun_def)

lemma set_custream_touched:
  "set_custream n this v h = Inr h' \<Longrightarrow>
     touched (\<lambda>n. n\<lparr>custream := v\<rparr>) (Some (\<lambda>x. x\<lparr>tensor_custream := v\<rparr>)) h h'"
  unfolding set_custream_broadcast by (rule broadcast_touched [OF setter_fields(1) tsetter_fields(1)])

lemma set_cublas_handle_touched:
  "set_cublas_handle n this v h = Inr h' \<Longrightarrow>
     touched (\<lambda>n. n\<lparr>cublas_handle := v\<rparr>) (Some (\<lambda>x. x\<lparr>tensor_cublas_handle := v\<rparr>)) h h'"
  unfolding set_cublas_handle_broadcast by (rule broadcast_touched [OF setter_fields(2) tsetter_fields(2)])

lemma set_cudnn_handle_touched:
  "set_cudnn_handle n this v h = Inr h' \<Longrightarrow> touched (\<lambda>n. n\<lparr>cudnn_handle := v\<rparr>) None h h'"
  unfolding set_cudnn_handle_broadcast by (rule broadcast_touched [OF setter_fields(3) tsetter_fields(3)])

lemma set_async_touched:
  "set_async n this v h = Inr h' \<Longrightarrow> touched (\<lambda>n. n\<lparr>async := v\<rparr>) None h h'"
  unfolding set_async_broadcast by (rule broadcast_touched [OF setter_fields(4) tsetter_fields(3)])





lemma setters_frame:
  assumes "context_free F"
  shows "set_custream n this v h = Inr h' \<Longrightarrow> map_option F (ops h' p) = map_option F (ops h p)"
    and "set_cublas_handle n this v h = Inr h' \<Longrightarrow> map_option F (ops h' p) = map_option F (ops h p)"
    and "set_cudnn_handle n this v h = Inr h' \<Longrightarrow> map_option F (ops h' p) = map_option F (ops h p)"
    and "set_async n this b h = Inr h' \<Longrightarrow> map_option F (ops h' p) = map_option F (ops h p)"
  using assms
  by (auto simp: context_free_def
           dest!: set_custream_touched set_cublas_handle_touched set_cudnn_handle_touched set_async_touched
           intro!: touched_field)

lemma then_do_InrE:
  assumes "then_do m k = Inr y"
  obtains x where "m = Inr x" and "k x = Inr y"
  using assms by (cases m) (simp_all add: then_do_def)

lemma cuda_exec_context_frame:
  assumes "context_free F" and "cuda_exec_context n this c h = Inr h'"
  shows "map_option F (ops h' p) = map_option F (ops h p)"
proof -
  from assms(2) obtain h1 h2 where
    s1: "set_custream n this (ctx_stream c) h = Inr h1"
    and s2: "set_cublas_handle n this (ctx_cublas_handle c) h1 = Inr h2"
    and s3: "set_cudnn_handle n this (ctx_cudnn_handle c) h2 = Inr h'"
    unfolding cuda_exec_context_def by (elim then_do_InrE)
  have "map_option F (ops h' p) = map_option F (ops h2 p)"
    by (rule setters_frame(3) [OF assms(1) s3])
  also have "\<dots> = map_option F (ops h1 p)"
    by (rule setters_frame(2) [OF assms(1) s2])
  also have "\<dots> = map_option F (ops h p)"
    by (rule setters_frame(1) [OF assms(1) s1])
  finally show ?thesis .
qed

lemma cuda_exec_context_effect:
  assumes run: "cuda_exec_context n this c h = Inr h'" and reach: "reaches h this p"
  shows "\<exists>node. ops h p = Some node
           \<and> ops h' p = Some (node\<lparr>custream := ctx_stream c, cudnn_handle := ctx_cudnn_handle c,
                                     cublas_handle := ctx_cublas_handle c\<rparr>)
           \<and> (output_tensor node \<noteq> NULL \<longrightarrow>
                (\<exists>t. tensors h (output_tensor node) = Some t
                   \<and> tensors h' (output_tensor node)
                       = Some (t\<lparr>tensor_custream := ctx_stream c,
                                 tensor_cublas_handle := ctx_cublas_handle c\<rparr>)))"
proof -
  let ?f1 = "\<lambda>n::'a operation_scheme. n\<lparr>custream := ctx_stream c\<rparr>"
  let ?g1 = "\<lambda>x. x\<lparr>tensor_custream := ctx_stream c\<rparr>"
  let ?f2 = "\<lambda>n::'a operation_scheme. n\<lparr>cublas_handle := ctx_cublas_handle c\<rparr>"
  let ?g2 = "\<lambda>x. x\<lparr>tensor_cublas_handle := ctx_cublas_handle c\<rparr>"
  let ?f3 = "\<lambda>n::'a operation_scheme. n\<lparr>cudnn_handle := ctx_cudnn_handle c\<rparr>"
  from run obtain h1 h2 where
    s1: "set_custream n this (ctx_stream c) h = Inr h1"
    and s2: "set_cublas_handle n this (ctx_cublas_handle c) h1 = Inr h2"
    and s3: "set_cudnn_handle n this (ctx_cudnn_handle c) h2 = Inr h'"
    by (auto simp: cuda_exec_context_def then_do_Inr)
  have r1: "reaches h1 this p"
    using reach touched_reaches [OF setter_fields(1) set_custream_touched [OF s1]] by simp
  have r2: "reaches h2 this p"
    using r1 touched_reaches [OF setter_fields(2) set_cublas_handle_touched [OF s2]] by simp
  have u1: "updated ?f1 (Some ?g1) h h1 p"
    using s1 reach unfolding set_custream_broadcast
    by (rule broadcast_updated [OF setter_fields(1) tsetter_fields(1)])
  have u2: "updated ?f2 (Some ?g2) h1 h2 p"
    using s2 r1 unfolding set_cublas_handle_broadcast
    by (rule broadcast_updated [OF setter_fields(2) tsetter_fields(2)])
  have u3: "updated ?f3 None h2 h' p"
    using s3 r2 unfolding set_cudnn_handle_broadcast
    by (rule broadcast_updated [OF setter_fields(3) tsetter_fields(3)])
  have t3: "tensors h' x = tensors h2 x" for x
    using touched_tensors_cases [OF set_cudnn_handle_touched [OF s3], of x]
    by (auto simp: tensor_fun_def)
  from u1 u2 u3 show ?thesis
    unfolding updated_def by (auto simp: t3)
qed

lemma cuda_exec_context_returns:
  assumes "closed n h this"
  shows "\<exists>h'. cuda_exec_context n this c h = Inr h'"
proof -
  from broadcast_returns [OF setter_fields(1) tsetter_fields(1) assms]
  obtain h1 where s1: "set_custream n this (ctx_stream c) h = Inr h1"
    unfolding set_custream_broadcast by blast
  have c1: "closed n h1 this"
    using assms touched_closed [OF setter_fields(1) set_custream_touched [OF s1]] by simp
  from broadcast_returns [OF setter_fields(2) tsetter_fields(2) c1]
  obtain h2 where s2: "set_cublas_handle n this (ctx_cublas_handle c) h1 = Inr h2"
    unfolding set_cublas_handle_broadcast by blast
  have c2: "closed n h2 this"
    using c1 touched_closed [OF setter_fields(2) set_cublas_handle_touched [OF s2]] by simp
  from broadcast_returns [OF setter_fields(3) tsetter_fields(3) c2]
  obtain h3 where s3: "set_cudnn_handle n this (ctx_cudnn_handle c) h2 = Inr h3"
    unfolding set_cudnn_handle_broadcast by blast
  show ?thesis
    using s1 s2 s3 by (simp add: cuda_exec_context_def then_do_def)
qed

lemma cuda_defaults_frame:
  assumes F: "context_free F"
    and run: "then_do (set_custream fuel this a h1)
               (\<lambda>h2. then_do (set_cudnn_handle fuel this b h2)
                  (\<lambda>h3. then_do (set_cublas_handle fuel this c h3)
                     (\<lambda>h4. set_async fuel this d h4))) = Inr h'"
  shows "map_option F (ops h' p) = map_option F (ops h1 p)"
proof -
  from run obtain h2 h3 h4 where
    s1: "set_custream fuel this a h1 = Inr h2"
    and s2: "set_cudnn_handle fuel this b h2 = Inr h3"
    and s3: "set_cublas_handle fuel this c h3 = Inr h4"
    and s4: "set_async fuel this d h4 = Inr h'"
    by (elim then_do_InrE)
  have "map_option F (ops h' p) = map_option F (ops h4 p)"
    by (rule setters_frame(4) [OF F s4])
  also have "\<dots> = map_option F (ops h3 p)"
    by (rule setters_frame(2) [OF F s3])
  also have "\<dots> = map_option F (ops h2 p)"
    by (rule setters_frame(3) [OF F s2])
  also have "\<dots> = map_option F (ops h1 p)"
    by (rule setters_frame(1) [OF F s1])
  finally show ?thesis .
qed

lemma Operation_loop:
  assumes run: "Operation cfg fuel this ins ng raw h = Inr h'" and F: "context_free F"
  shows "\<exists>h1. for_each (ctor_body ng this) ins
               (h\<lparr>ops := (ops h)(this \<mapsto> raw\<lparr>inputs := ins, consumers := [], output_shape := [],
                       grad_cache := Map.empty, name := ''DefaultOpName'',
                       output_tensor := NULL, needs_grad := ng\<rparr>)\<rparr>) = Inr h1
           \<and> (\<forall>p. map_option F (ops h' p) = map_option F (ops h1 p))"
proof -
  from run [unfolded Operation_def Let_def] obtain h1 where
    loop: "for_each (ctor_body ng this) ins
       (h\<lparr>ops := (ops h)(this \<mapsto> raw\<lparr>inputs := ins, consumers := [], output_shape := [],
                       grad_cache := Map.empty, name := ''DefaultOpName'',
                       output_tensor := NULL, needs_grad := ng\<rparr>)\<rparr>) = Inr h1"
    and rest: "(if have_cuda cfg then
                    then_do (set_custream fuel this NULL h1)
                      (\<lambda>h2. then_do (set_cudnn_handle fuel this (settings_cudnn_handle cfg) h2)
                         (\<lambda>h3. then_do (set_cublas_handle fuel this (settings_cublas_handle cfg) h3)
                            (\<lambda>h4. set_async fuel this False h4)))
                  else Inr h1) = Inr h'"
    by (rule then_do_InrE)
  have "map_option F (ops h' p) = map_option F (ops h1 p)" for p
  proof (cases "have_cuda cfg")
    case False
    with rest show ?thesis by simp
  next
    case True
    with rest show ?thesis by (simp add: cuda_defaults_frame [OF F])
  qed
  with loop show ?thesis by blast
qed

lemma Operation_consumers:
  assumes run: "Operation cfg fuel this ins ng raw h = Inr h'" and p: "p \<noteq> this"
  shows "map_option consumers (ops h' p)
         = map_option (\<lambda>n. consumers n @ replicate (if ng then count_list ins p else 0) this) (ops h p)"
proof -
  have cf: "context_free (consumers :: 'a operation_scheme \<Rightarrow> ptr list)"
    by (simp add: context_free_def)
  from Operation_loop [OF run cf] obtain h1 where
    loop: "for_each (ctor_body ng this) ins
       (h\<lparr>ops := (ops h)(this \<mapsto> raw\<lparr>inputs := ins, consumers := [], output_shape := [],
                       grad_cache := Map.empty, name := ''DefaultOpName'',
                       output_tensor := NULL, needs_grad := ng\<rparr>)\<rparr>) = Inr h1"
    and frame: "map_option consumers (ops h' p) = map_option consumers (ops h1 p)"
    by blast
  from ctor_loop_ops [OF loop, of p] p frame show ?thesis
    by (simp add: option.map_comp comp_def)
qed

lemma Operation_this:
  assumes run: "Operation cfg fuel this ins ng raw h = Inr h'"
  shows "\<exists>n'. ops h' this = Some n'
           \<and> grad_cache n' = (\<lambda>k. if k \<in> set ins then Some NULL else None)
           \<and> consumers n' = replicate (if ng then count_list ins this else 0) this
           \<and> inputs n' = ins \<and> needs_grad n' = ng \<and> output_tensor n' = NULL"
proof -
  let ?F = "\<lambda>n::'a operation_scheme. (grad_cache n, consumers n, inputs n, needs_grad n, output_tensor n)"
  have cf: "context_free ?F" by (simp add: context_free_def)
  from Operation_loop [OF run cf] obtain h1 where
    loop: "for_each (ctor_body ng this) ins
       (h\<lparr>ops := (ops h)(this \<mapsto> raw\<lparr>inputs := ins, consumers := [], output_shape := [],
                       grad_cache := Map.empty, name := ''DefaultOpName'',
                       output_tensor := NULL, needs_grad := ng\<rparr>)\<rparr>) = Inr h1"
    and frame: "map_option ?F (ops h' this) = map_option ?F (ops h1 this)"
    by blast
  from ctor_loop_ops [OF loop, of this] frame show ?thesis
    by (cases "ops h' this") (auto simp: fold_map_insert)
qed

subsection \<open>The test graph\<close>

lemma fresh_op_fields:
  "inputs fresh_op = []" "consumers fresh_op = []" "grad_cache fresh_op = Map.empty"
  "output_tensor fresh_op = NULL" "needs_grad fresh_op = False"
  "has_been_computed fresh_op = False" "has_grad_been_computed fresh_op = False"
  "custream fresh_op = 0" "cudnn_handle fresh_op = 0" "cublas_handle fresh_op = 0"
  "async fresh_op = False" "forward_calls fresh_op = 0"
  by (simp_all add: fresh_op_def)

lemma top_op_fields:
  "inputs top_op = [1, 2]" "consumers top_op = []" "grad_cache top_op = [1 \<mapsto> NULL, 2 \<mapsto> NULL]"
  "output_tensor top_op = NULL" "needs_grad top_op = True"
  "has_been_computed top_op = False" "has_grad_been_computed top_op = False"
  "custream top_op = 0" "cudnn_handle top_op = 0" "cublas_handle top_op = 0"
  "async top_op = False" "forward_calls top_op = 0"
  by (simp_all add: top_op_def fresh_op_fields)

subsection \<open>Forward evaluation\<close>

text \<open>
  C1. Whenever \<open>recompute\<close> is false, the node's computed flag is set and its cached
  output tensor is not null, \<open>eval\<close> returns that cached pointer and leaves the whole
  store as it was. The result does not depend on the forward rule, which is therefore not
  invoked; and since the store is unchanged, a second \<open>eval(false)\<close> right after the
  first returns the same pointer, again without touching the store. The same holds for the
  second of two calls when the first one had to run the forward rule and that rule, as its
  documentation says, left the tensor it returned in \<open>output_tensor\<close>.
\<close>

theorem eval_returns_cached:
  "(ops h this = Some node \<longrightarrow> has_been_computed node \<longrightarrow> output_tensor node \<noteq> NULL \<longrightarrow>
      eval eval_rule this False h = Inr (output_tensor node, h)
      \<and> then_do (eval eval_rule this False h) (\<lambda>(t, h'). eval eval_rule' this False h')
          = Inr (output_tensor node, h))
   \<and> (eval eval_rule this False h = Inr (t, h1) \<longrightarrow> ops h1 this = Some node1 \<longrightarrow>
        has_been_computed node1 \<longrightarrow> output_tensor node1 = t \<longrightarrow> t \<noteq> NULL \<longrightarrow>
        eval eval_rule' this False h1 = Inr (t, h1))"
  by (simp add: eval_def then_do_def)

text \<open>
  On the test graph: the first \<open>eval(false)\<close> on the node 3 runs the forward rule once
  (the counter goes to 1); every later \<open>eval(false)\<close> returns the tensor 10 and leaves
  the counter at 1.
\<close>

theorem eval_returns_cached_witness:
  "eval test_eval 3 False test_graph = Inr (10, test_graph_computed)
   \<and> ops test_graph_computed 3
       = Some (top_op\<lparr>output_tensor := 10, has_been_computed := True, forward_calls := 1\<rparr>)
   \<and> eval test_eval 3 False test_graph_computed = Inr (10, test_graph_computed)
   \<and> then_do (eval test_eval 3 False test_graph_computed) (\<lambda>(t, h'). eval test_eval 3 False h')
       = Inr (10, test_graph_computed)"
proof -
  let ?node = "top_op\<lparr>output_tensor := 10, has_been_computed := True, forward_calls := 1\<rparr>"
  have a: "ops test_graph_computed 3 = Some ?node"
    by (simp add: test_graph_computed_def)
  have b: "has_been_computed ?node" by simp
  have c: "output_tensor ?node \<noteq> NULL" by (simp add: NULL_def)
  have d: "output_tensor ?node = 10" by simp
  have e: "eval test_eval 3 False test_graph = Inr (10, test_graph_computed)"
    by (simp add: eval_def test_eval_def test_graph_def top_op_fields)
       (simp add: test_graph_computed_def top_op_def fresh_op_def)
  have f: "(10 :: ptr) \<noteq> NULL" by (simp add: NULL_def)
  from eval_returns_cached
         [of test_graph_computed 3 ?node test_eval test_eval 10 test_graph_computed ?node]
       a b c f
  have "eval test_eval 3 False test_graph_computed = Inr (10, test_graph_computed)"
    and "then_do (eval test_eval 3 False test_graph_computed)
           (\<lambda>(t, h'). eval test_eval 3 False h') = Inr (10, test_graph_computed)"
    unfolding d by blast+
  with a e show ?thesis by blast
qed

subsection \<open>Gradients\<close>

text \<open>
  C9. When the gradient cache of the node has no entry for \<open>var\<close>,
  \<open>grad(consumer, var, g, false)\<close> is the local gradient rule run on the store in
  which the cache of this node has gained the key \<open>var\<close>, mapped to the null pointer,
  and nothing else has changed: no other cache entry, no other member of the node, no other
  node. The key set of the cache handed to the local rule is the old one plus \<open>var\<close>,
  which was not in it.
\<close>

theorem grad_cache_miss_inserts_null:
  assumes "ops h this = Some node" and "grad_cache node var = None"
  shows "grad grad_rule this consumer var g False h
         = grad_rule this consumer var g
             (h\<lparr>ops := (ops h)(this \<mapsto> node\<lparr>grad_cache := (grad_cache node)(var \<mapsto> NULL)\<rparr>)\<rparr>)
         \<and> dom ((grad_cache node)(var \<mapsto> NULL)) = insert var (dom (grad_cache node))
         \<and> var \<notin> dom (grad_cache node)"
  using assms by (auto simp: grad_def map_index_def)

text \<open>
  On the test graph the node 3 has the slots 1 and 2 from its construction; a query for
  the variable 5 leaves it with three.
\<close>

theorem grad_cache_miss_inserts_null_witness:
  "grad test_grad 3 4 5 11 False test_graph
   = Inr (NULL, test_graph\<lparr>ops := (ops test_graph)
            (3 \<mapsto> top_op\<lparr>output_tensor := 10,
                           grad_cache := [1 \<mapsto> NULL, 2 \<mapsto> NULL, 5 \<mapsto> NULL]\<rparr>)\<rparr>)"
proof -
  let ?node = "top_op\<lparr>output_tensor := 10\<rparr>"
  have a: "ops test_graph 3 = Some ?node" by (simp add: test_graph_def)
  have b: "grad_cache ?node 5 = None" by (simp add: top_op_fields)
  from grad_cache_miss_inserts_null [OF a b, of test_grad 4 11] show ?thesis
    by (simp add: test_grad_def top_op_fields)
qed

text \<open>
  C2 fails on the code: the node 3 of the test graph was built from the inputs 1 and 2, the
  variable 5 was never registered, and \<open>grad\<close> for it returns the null pointer of the
  local rule, with either value of \<open>recompute\<close>, and no error.
\<close>

theorem grad_unregistered_returns_null:
  "ops test_graph 3 = Some (top_op\<lparr>output_tensor := 10\<rparr>)
   \<and> grad_cache (top_op\<lparr>output_tensor := 10\<rparr>) 5 = None
   \<and> grad test_grad 3 4 5 11 True test_graph = Inr (NULL, test_graph)
   \<and> grad test_grad 3 4 5 11 False test_graph
       = Inr (NULL, test_graph\<lparr>ops := (ops test_graph)
            (3 \<mapsto> top_op\<lparr>output_tensor := 10,
                           grad_cache := [1 \<mapsto> NULL, 2 \<mapsto> NULL, 5 \<mapsto> NULL]\<rparr>)\<rparr>)"
  by (simp add: grad_def map_index_def test_grad_def test_graph_def top_op_fields)

text \<open>
  C2, as amended. For a variable that has no entry in the gradient cache, \<open>grad\<close>
  raises no error of its own: it returns whatever the local gradient rule returns, run on
  the unchanged store when \<open>recompute\<close> is true, and on the store with a null cache
  entry inserted for the variable when \<open>recompute\<close> is false.
\<close>

theorem grad_unregistered_runs_local_rule:
  assumes "ops h this = Some node" and "grad_cache node var = None"
  shows "grad grad_rule this consumer var g recompute h
         = grad_rule this consumer var g
             (if recompute then h
              else h\<lparr>ops := (ops h)(this \<mapsto> node\<lparr>grad_cache := (grad_cache node)(var \<mapsto> NULL)\<rparr>)\<rparr>)"
  using assms by (simp add: grad_def map_index_def)

text \<open>The amended statement at the node 3 of the test graph and the variable 5.\<close>

theorem grad_unregistered_runs_local_rule_witness:
  "grad test_grad 3 4 5 11 True test_graph = test_grad 3 4 5 11 test_graph"
proof -
  let ?node = "top_op\<lparr>output_tensor := 10\<rparr>"
  have a: "ops test_graph 3 = Some ?node" by (simp add: test_graph_def)
  have b: "grad_cache ?node 5 = None" by (simp add: top_op_fields)
  from grad_unregistered_runs_local_rule [OF a b, of test_grad 4 11 True] show ?thesis
    by simp
qed

subsection \<open>Construction\<close>

lemma ctor_loop_inputs_live:
  "for_each (ctor_body True this) ins h = Inr h1 \<Longrightarrow> i \<in> set ins \<Longrightarrow> ops h i \<noteq> None"
proof (induction ins arbitrary: h)
  case Nil
  then show ?case by simp
next
  case (Cons vit ins)
  from Cons.prems(1) obtain ha where ha: "ctor_body True this vit h = Inr ha"
    and rest: "for_each (ctor_body True this) ins ha = Inr h1"
    by (auto split: sum.splits)
  show ?case
  proof (cases "i = vit")
    case True
    with ha show ?thesis
      by (auto simp: ctor_body_def add_consumer_def update_op_def elim!: then_do_InrE split: option.splits)
  next
    case False
    with Cons.prems(2) have "i \<in> set ins" by simp
    from Cons.IH [OF rest this] ctor_body_ops(1) [OF ha, of i] show ?thesis by auto
  qed
qed

lemma Operation_inputs_live:
  assumes run: "Operation cfg fuel this ins True raw h = Inr h'" and i: "i \<in> set ins" "i \<noteq> this"
  shows "ops h i \<noteq> None"
proof -
  have cf: "context_free (consumers :: 'a operation_scheme \<Rightarrow> ptr list)"
    by (simp add: context_free_def)
  from Operation_loop [OF run cf] obtain h1 where
    loop: "for_each (ctor_body True this) ins
       (h\<lparr>ops := (ops h)(this \<mapsto> raw\<lparr>inputs := ins, consumers := [], output_shape := [],
                       grad_cache := Map.empty, name := ''DefaultOpName'',
                       output_tensor := NULL, needs_grad := True\<rparr>)\<rparr>) = Inr h1"
    by blast
  from ctor_loop_inputs_live [OF loop i(1)] i(2) show ?thesis by simp
qed

lemma built_graph_constructed:
  "Operation no_cuda 0 3 [1, 2] True fresh_op two_leaves = Inr built_graph"
  by (simp add: Operation_def ctor_body_def add_consumer_def add_consumer_op_def update_op_def
        then_do_def map_insert_def no_cuda_def two_leaves_def fresh_op_fields)
     (simp add: built_graph_def top_op_def fresh_op_def NULL_def fun_upd_twist)

text \<open>
  C3 fails on the code: the leaf 1 does not require a gradient, and the node built from it
  with \<open>needs_grad = true\<close> is registered as its consumer and holds a null cache slot
  for it.
\<close>

theorem Operation_registers_inputs_without_gradient:
  "ops two_leaves 1 = Some fresh_op \<and> needs_grad fresh_op = False
   \<and> Operation no_cuda 0 3 [1, 2] True fresh_op two_leaves = Inr built_graph
   \<and> ops built_graph 1 = Some (fresh_op\<lparr>consumers := [3]\<rparr>)
   \<and> ops built_graph 3 = Some top_op
   \<and> grad_cache top_op 1 = Some NULL"
  using built_graph_constructed
  by (simp add: two_leaves_def built_graph_def fresh_op_fields top_op_fields)

lemma count_list_pos: "x \<in> set xs \<Longrightarrow> 0 < count_list xs x"
  by (induction xs) auto

lemma Operation_input_consumers:
  assumes run: "Operation cfg fuel this ins ng raw h = Inr h'"
    and i: "i \<noteq> this" "ops h i = Some ni"
  shows "\<exists>ni'. ops h' i = Some ni'
           \<and> consumers ni' = consumers ni @ replicate (if ng then count_list ins i else 0) this"
  using Operation_consumers [OF run i(1)] i(2) by (cases "ops h' i") auto

text \<open>
  C3, as amended. Construction from the inputs \<open>ins\<close> gives the new node a null
  gradient-cache slot for every input and for no other key, whatever the flags of the
  inputs; when the new node's own \<open>needs_grad\<close> is true it is registered as a consumer
  of every input, and when it is false no consumer list of another node changes.
\<close>

theorem Operation_consumers_and_slots:
  assumes run: "Operation cfg fuel this ins ng raw h = Inr h'"
  shows "(\<exists>n'. ops h' this = Some n'
              \<and> grad_cache n' = (\<lambda>k. if k \<in> set ins then Some NULL else None))
         \<and> (ng \<longrightarrow> (\<forall>i \<in> set ins. \<exists>ni'. ops h' i = Some ni' \<and> this \<in> set (consumers ni')))
         \<and> (\<not> ng \<longrightarrow> (\<forall>p. p \<noteq> this \<longrightarrow>
                map_option consumers (ops h' p) = map_option consumers (ops h p)))"
proof (intro conjI impI ballI allI)
  show "\<exists>n'. ops h' this = Some n' \<and> grad_cache n' = (\<lambda>k. if k \<in> set ins then Some NULL else None)"
    using Operation_this [OF run] by blast
next
  fix i assume ng: ng and i: "i \<in> set ins"
  show "\<exists>ni'. ops h' i = Some ni' \<and> this \<in> set (consumers ni')"
  proof (cases "i = this")
    case True
    with Operation_this [OF run] ng count_list_pos [OF i] show ?thesis by auto
  next
    case False
    from run ng have run': "Operation cfg fuel this ins True raw h = Inr h'" by simp
    from Operation_inputs_live [OF run' i False] obtain ni where ni: "ops h i = Some ni" by blast
    from Operation_input_consumers [OF run False ni] ng count_list_pos [OF i]
    show ?thesis by auto
  qed
next
  fix p assume "\<not> ng" and "p \<noteq> this"
  with Operation_consumers [OF run, of p]
  show "map_option consumers (ops h' p) = map_option consumers (ops h p)"
    by (cases "ops h p") simp_all
qed

text \<open>The amended statement at the construction of the node 3 over the two leaves.\<close>

theorem Operation_consumers_and_slots_witness:
  "Operation no_cuda 0 3 [1, 2] True fresh_op two_leaves = Inr built_graph
   \<and> (\<exists>n'. ops built_graph 3 = Some n'
          \<and> grad_cache n' = (\<lambda>k. if k \<in> set [1, 2] then Some NULL else None))
   \<and> (\<exists>ni'. ops built_graph 1 = Some ni' \<and> 3 \<in> set (consumers ni'))
   \<and> (\<exists>ni'. ops built_graph 2 = Some ni' \<and> 3 \<in> set (consumers ni'))"
  using Operation_consumers_and_slots [OF built_graph_constructed] built_graph_constructed
  by simp

lemma add_consumer_live:
  "ops h this = Some node \<Longrightarrow>
     add_consumer this c h
     = Inr (h\<lparr>ops := (ops h)(this \<mapsto> node\<lparr>consumers := consumers node @ [c]\<rparr>)\<rparr>)"
  by (simp add: add_consumer_def add_consumer_op_def update_op_def)

lemma closed_live: "closed n h p \<Longrightarrow> ops h p \<noteq> None"
  by (cases n) (auto split: option.splits)

lemma closed_fresh:
  "closed n h i \<Longrightarrow> ops h this = None \<Longrightarrow> closed n (h\<lparr>ops := (ops h)(this \<mapsto> x)\<rparr>) i"
proof (induction n arbitrary: i)
  case 0
  then show ?case by simp
next
  case (Suc n)
  from Suc.prems obtain node where node: "ops h i = Some node"
    and ins: "\<forall>j \<in> set (inputs node). closed n h j"
    and out: "output_tensor node \<noteq> NULL \<longrightarrow> tensors h (output_tensor node) \<noteq> None"
    by (cases "ops h i") auto
  from node Suc.prems(2) have "i \<noteq> this" by auto
  with node ins out Suc.IH Suc.prems(2) show ?case by simp
qed

lemma ctor_body_returns:
  assumes "ops h this \<noteq> None" and "ng \<longrightarrow> ops h vit \<noteq> None"
  shows "\<exists>ha. ctor_body ng this vit h = Inr ha"
  using assms
  by (auto simp: ctor_body_def then_do_def add_consumer_def update_op_def split: option.splits)

lemma ctor_loop_returns:
  "ops h this \<noteq> None \<Longrightarrow> ng \<longrightarrow> (\<forall>i \<in> set ins. ops h i \<noteq> None) \<Longrightarrow>
     \<exists>h1. for_each (ctor_body ng this) ins h = Inr h1"
proof (induction ins arbitrary: h)
  case Nil
  show ?case by simp
next
  case (Cons vit ins)
  from ctor_body_returns [of h this ng vit] Cons.prems obtain ha where
    ha: "ctor_body ng this vit h = Inr ha" by auto
  have live: "ops ha p \<noteq> None \<longleftrightarrow> ops h p \<noteq> None" for p
    using ctor_body_ops(1) [OF ha, of p] by (cases "ops h p") simp_all
  have "\<exists>h1. for_each (ctor_body ng this) ins ha = Inr h1"
    by (rule Cons.IH) (use Cons.prems live in auto)
  with ha show ?case by simp
qed

lemma ctor_loop_closed:
  assumes "for_each (ctor_body ng this) ins h = Inr h1"
  shows "closed m h1 p \<longleftrightarrow> closed m h p"
proof (induction m arbitrary: p)
  case 0
  show ?case by simp
next
  case (Suc m)
  from ctor_loop_ops [OF assms, of p] Suc.IH show ?case
    by (cases "ops h p") simp_all
qed

lemma cuda_defaults_returns:
  assumes "closed m h this"
  shows "\<exists>h'. then_do (set_custream m this a h)
               (\<lambda>h2. then_do (set_cudnn_handle m this b h2)
                  (\<lambda>h3. then_do (set_cublas_handle m this c h3)
                     (\<lambda>h4. set_async m this d h4))) = Inr h'"
proof -
  from broadcast_returns [OF setter_fields(1) tsetter_fields(1) assms]
  obtain h2 where s1: "set_custream m this a h = Inr h2"
    unfolding set_custream_broadcast by blast
  have c2: "closed m h2 this"
    using assms touched_closed [OF setter_fields(1) set_custream_touched [OF s1]] by simp
  from broadcast_returns [OF setter_fields(3) tsetter_fields(3) c2]
  obtain h3 where s2: "set_cudnn_handle m this b h2 = Inr h3"
    unfolding set_cudnn_handle_broadcast by blast
  have c3: "closed m h3 this"
    using c2 touched_closed [OF setter_fields(3) set_cudnn_handle_touched [OF s2]] by simp
  from broadcast_returns [OF setter_fields(2) tsetter_fields(2) c3]
  obtain h4 where s3: "set_cublas_handle m this c h3 = Inr h4"
    unfolding set_cublas_handle_broadcast by blast
  have c4: "closed m h4 this"
    using c3 touched_closed [OF setter_fields(2) set_cublas_handle_touched [OF s3]] by simp
  from broadcast_returns [OF setter_fields(4) tsetter_fields(3) c4]
  obtain h5 where s4: "set_async m this d h4 = Inr h5"
    unfolding set_async_broadcast by blast
  show ?thesis using s1 s2 s3 s4 by (simp add: then_do_def)
qed

lemma Operation_returns:
  assumes fresh: "ops h this = None" and ins: "\<forall>i \<in> set ins. closed n h i"
  shows "\<exists>h'. Operation cfg (Suc n) this ins ng raw h = Inr h'"
proof -
  let ?node0 = "raw\<lparr>inputs := ins, consumers := [], output_shape := [],
                       grad_cache := Map.empty, name := ''DefaultOpName'',
                       output_tensor := NULL, needs_grad := ng\<rparr>"
  let ?h0 = "h\<lparr>ops := (ops h)(this \<mapsto> ?node0)\<rparr>"
  have ins0: "\<forall>i \<in> set ins. closed n ?h0 i"
    using ins fresh by (auto intro: closed_fresh)
  have live: "\<forall>i \<in> set ins. ops ?h0 i \<noteq> None"
  proof
    fix i assume "i \<in> set ins"
    with ins0 have "closed n ?h0 i" by blast
    then show "ops ?h0 i \<noteq> None" by (rule closed_live)
  qed
  have "ops ?h0 this \<noteq> None" by simp
  from ctor_loop_returns [OF this, of ng ins] live obtain h1 where
    loop: "for_each (ctor_body ng this) ins ?h0 = Inr h1" by blast
  have "closed (Suc n) ?h0 this" using ins0 by simp
  then have c1: "closed (Suc n) h1 this" by (simp only: ctor_loop_closed [OF loop])
  have step: "then_do (Inr h1) k = k h1" for k :: "'a heap \<Rightarrow> fault + 'a heap"
    by (simp add: then_do_def)
  show ?thesis
  proof (cases "have_cuda cfg")
    case True
    from cuda_defaults_returns [OF c1] show ?thesis
      unfolding Operation_def Let_def loop step by (simp only: True if_True)
  next
    case False
    show ?thesis
      unfolding Operation_def Let_def loop step by (simp only: False if_False) blast
  qed
qed


lemma unlisted_graph_constructed:
  "Operation no_cuda 0 3 [1, 2] False fresh_op two_leaves = Inr unlisted_graph"
  by (simp add: Operation_def ctor_body_def update_op_def then_do_def map_insert_def
        no_cuda_def two_leaves_def fresh_op_fields)
     (simp add: unlisted_graph_def fresh_op_def NULL_def fun_upd_twist)

lemma Operation_without_gradient:
  assumes run: "Operation cfg fuel this ins False raw h = Inr h'" and p: "p \<noteq> this"
  shows "map_option consumers (ops h' p) = map_option consumers (ops h p)"
  using Operation_consumers [OF run p] by (cases "ops h p") simp_all

lemma built_graph_cuda_constructed:
  "Operation with_cuda 2 3 [1, 2] True fresh_op two_leaves
   = Inr (built_graph\<lparr>ops := [1 \<mapsto> fresh_op\<lparr>consumers := [3], cudnn_handle := 21, cublas_handle := 22\<rparr>,
                               2 \<mapsto> fresh_op\<lparr>consumers := [3], cudnn_handle := 21, cublas_handle := 22\<rparr>,
                               3 \<mapsto> top_op\<lparr>cudnn_handle := 21, cublas_handle := 22\<rparr>]\<rparr>)"
  by (simp add: Operation_def ctor_body_def add_consumer_def add_consumer_op_def update_op_def
        then_do_def map_insert_def with_cuda_def two_leaves_def fresh_op_fields numeral_2_eq_2)
     (simp add: built_graph_def top_op_def fresh_op_def NULL_def fun_upd_twist numeral_2_eq_2)

text \<open>
  C4 fails on the code: the node 3 is built from the leaves 1 and 2 with
  \<open>needs_grad = false\<close>, and a later call of the public \<open>add_consumer\<close> on the leaf 1
  lists it as a consumer of that leaf all the same.
\<close>

theorem add_consumer_lists_node_without_gradient:
  "Operation no_cuda 0 3 [1, 2] False fresh_op two_leaves = Inr unlisted_graph
   \<and> ops unlisted_graph 3
       = Some (fresh_op\<lparr>inputs := [1, 2], grad_cache := [1 \<mapsto> NULL, 2 \<mapsto> NULL],
                        name := ''DefaultOpName''\<rparr>)
   \<and> needs_grad (fresh_op\<lparr>inputs := [1, 2], grad_cache := [1 \<mapsto> NULL, 2 \<mapsto> NULL],
                           name := ''DefaultOpName''\<rparr>) = False
   \<and> add_consumer 1 3 unlisted_graph
       = Inr (unlisted_graph\<lparr>ops := (ops unlisted_graph)(1 \<mapsto> fresh_op\<lparr>consumers := [3]\<rparr>)\<rparr>)"
  using unlisted_graph_constructed
  by (simp add: add_consumer_def add_consumer_op_def update_op_def unlisted_graph_def
        fresh_op_fields)

text \<open>
  C4, as amended. What the constructor establishes, and what the class does not keep.
  Right after a node has been built at a fresh address, it is in the consumer list of an
  input that did not list that address before if and only if the node's own
  \<open>needs_grad\<close> flag is true; with the flag false the constructor changes no consumer
  list of another node at all. The constructor returns on every store in which the graphs
  below the inputs are closed and within the fuel. Afterwards \<open>add_consumer\<close> appends
  the node it is given to the list, whatever that node's flag is.
\<close>

theorem Operation_consumer_iff_needs_grad:
  "(Operation cfg fuel this ins ng raw h = Inr h' \<longrightarrow> ops h this = None \<longrightarrow> i \<in> set ins \<longrightarrow>
      ops h i = Some ni \<longrightarrow> this \<notin> set (consumers ni) \<longrightarrow>
      (\<exists>ni'. ops h' i = Some ni' \<and> (this \<in> set (consumers ni') \<longleftrightarrow> ng)))
   \<and> (Operation cfg fuel this ins False raw h = Inr h' \<longrightarrow> p \<noteq> this \<longrightarrow>
        map_option consumers (ops h' p) = map_option consumers (ops h p))
   \<and> (ops h this = None \<longrightarrow> (\<forall>i \<in> set ins. closed n h i) \<longrightarrow>
        (\<exists>h'. Operation cfg (Suc n) this ins ng raw h = Inr h'))
   \<and> (ops h p = Some node \<longrightarrow>
        add_consumer p this h
        = Inr (h\<lparr>ops := (ops h)(p \<mapsto> node\<lparr>consumers := consumers node @ [this]\<rparr>)\<rparr>))"
proof (intro conjI impI)
  assume run: "Operation cfg fuel this ins ng raw h = Inr h'" and fresh: "ops h this = None"
    and i: "i \<in> set ins" "ops h i = Some ni" "this \<notin> set (consumers ni)"
  from fresh i(2) have "i \<noteq> this" by auto
  from Operation_input_consumers [OF run this i(2)] i(3) count_list_pos [OF i(1)]
  show "\<exists>ni'. ops h' i = Some ni' \<and> (this \<in> set (consumers ni') \<longleftrightarrow> ng)" by auto
next
  assume "Operation cfg fuel this ins False raw h = Inr h'" and "p \<noteq> this"
  then show "map_option consumers (ops h' p) = map_option consumers (ops h p)"
    by (rule Operation_without_gradient)
next
  assume "ops h this = None" and "\<forall>i \<in> set ins. closed n h i"
  then show "\<exists>h'. Operation cfg (Suc n) this ins ng raw h = Inr h'"
    by (rule Operation_returns)
next
  assume "ops h p = Some node"
  then show "add_consumer p this h
        = Inr (h\<lparr>ops := (ops h)(p \<mapsto> node\<lparr>consumers := consumers node @ [this]\<rparr>)\<rparr>)"
    by (rule add_consumer_live)
qed

text \<open>
  The amended statement at the construction of the node 3 over the two leaves: with
  \<open>needs_grad = false\<close> in the build without CUDA, with \<open>needs_grad = true\<close> in the
  CUDA build.
\<close>

theorem Operation_consumer_iff_needs_grad_witness:
  "ops two_leaves 3 = None \<and> ops two_leaves 1 = Some fresh_op \<and> 3 \<notin> set (consumers fresh_op)
   \<and> Operation no_cuda 0 3 [1, 2] False fresh_op two_leaves = Inr unlisted_graph
   \<and> (\<exists>ni'. ops unlisted_graph 1 = Some ni' \<and> 3 \<notin> set (consumers ni'))
   \<and> map_option consumers (ops unlisted_graph 2) = map_option consumers (ops two_leaves 2)
   \<and> Operation with_cuda 2 3 [1, 2] True fresh_op two_leaves
       = Inr (built_graph\<lparr>ops := [1 \<mapsto> fresh_op\<lparr>consumers := [3], cudnn_handle := 21, cublas_handle := 22\<rparr>,
                               2 \<mapsto> fresh_op\<lparr>consumers := [3], cudnn_handle := 21, cublas_handle := 22\<rparr>,
                               3 \<mapsto> top_op\<lparr>cudnn_handle := 21, cublas_handle := 22\<rparr>]\<rparr>)
   \<and> (\<exists>ni'. ops (built_graph\<lparr>ops := [1 \<mapsto> fresh_op\<lparr>consumers := [3], cudnn_handle := 21, cublas_handle := 22\<rparr>,
                               2 \<mapsto> fresh_op\<lparr>consumers := [3], cudnn_handle := 21, cublas_handle := 22\<rparr>,
                               3 \<mapsto> top_op\<lparr>cudnn_handle := 21, cublas_handle := 22\<rparr>]\<rparr>) 1 = Some ni'
          \<and> 3 \<in> set (consumers ni'))
   \<and> closed 1 two_leaves 1 \<and> closed 1 two_leaves 2
   \<and> (\<exists>h'. Operation with_cuda (Suc 1) 3 [1, 2] False fresh_op two_leaves = Inr h')
   \<and> add_consumer 1 3 two_leaves
       = Inr (two_leaves\<lparr>ops := (ops two_leaves)(1 \<mapsto> fresh_op\<lparr>consumers := consumers fresh_op @ [3]\<rparr>)\<rparr>)"
proof -
  let ?cuda = "built_graph\<lparr>ops := [1 \<mapsto> fresh_op\<lparr>consumers := [3], cudnn_handle := 21, cublas_handle := 22\<rparr>,
                               2 \<mapsto> fresh_op\<lparr>consumers := [3], cudnn_handle := 21, cublas_handle := 22\<rparr>,
                               3 \<mapsto> top_op\<lparr>cudnn_handle := 21, cublas_handle := 22\<rparr>]\<rparr>"
  have a: "ops two_leaves 3 = None" by (simp add: two_leaves_def)
  have b: "1 \<in> set [1, 2 :: ptr]" by simp
  have c: "ops two_leaves 1 = Some fresh_op" by (simp add: two_leaves_def)
  have d: "3 \<notin> set (consumers fresh_op)" by (simp add: fresh_op_fields)
  have e: "(2 :: ptr) \<noteq> 3" by simp
  have f: "\<forall>i \<in> set [1, 2 :: ptr]. closed 1 two_leaves i"
    by (simp add: two_leaves_def fresh_op_fields)
  note off = Operation_consumer_iff_needs_grad
    [where cfg = no_cuda and fuel = 0 and this = 3 and ins = "[1, 2]" and ng = False
       and raw = fresh_op and h = two_leaves and h' = unlisted_graph and i = 1
       and ni = fresh_op and p = 2 and n = 1 and node = fresh_op]
  note on = Operation_consumer_iff_needs_grad
    [where cfg = with_cuda and fuel = 2 and this = 3 and ins = "[1, 2]" and ng = True
       and raw = fresh_op and h = two_leaves and h' = ?cuda and i = 1
       and ni = fresh_op and p = 1 and n = 1 and node = fresh_op]
  note ret = Operation_consumer_iff_needs_grad
    [where cfg = with_cuda and fuel = 2 and this = 3 and ins = "[1, 2]" and ng = False
       and raw = fresh_op and h = two_leaves and h' = unlisted_graph and i = 1
       and ni = fresh_op and p = 1 and n = 1 and node = fresh_op]
  from off unlisted_graph_constructed a b c d e
  have 1: "\<exists>ni'. ops unlisted_graph 1 = Some ni' \<and> 3 \<notin> set (consumers ni')"
    and 2: "map_option consumers (ops unlisted_graph 2) = map_option consumers (ops two_leaves 2)"
    by blast+
  from on built_graph_cuda_constructed a b c d
  have 3: "\<exists>ni'. ops ?cuda 1 = Some ni' \<and> 3 \<in> set (consumers ni')"
    and 4: "add_consumer 1 3 two_leaves
       = Inr (two_leaves\<lparr>ops := (ops two_leaves)(1 \<mapsto> fresh_op\<lparr>consumers := consumers fresh_op @ [3]\<rparr>)\<rparr>)"
    by blast+
  from ret a f
  have 5: "\<exists>h'. Operation with_cuda (Suc 1) 3 [1, 2] False fresh_op two_leaves = Inr h'"
    by blast
  from f have 6: "closed 1 two_leaves 1" "closed 1 two_leaves 2" by simp_all
  from a c d unlisted_graph_constructed built_graph_cuda_constructed 1 2 3 4 5 6
  show ?thesis by blast
qed

subsection \<open>The consumer list\<close>

text \<open>
  C8 fails on the code: \<open>add_consumer\<close> called twice with the consumer 3 leaves the two
  entries \<open>[3, 3]\<close>, and so does the construction of the node 3 from the input 1 listed
  twice.
\<close>

theorem add_consumer_twice_two_entries:
  "ops two_leaves 1 = Some fresh_op \<and> consumers fresh_op = []
   \<and> then_do (add_consumer 1 3 two_leaves) (add_consumer 1 3)
       = Inr (two_leaves\<lparr>ops := (ops two_leaves)(1 \<mapsto> fresh_op\<lparr>consumers := [3, 3]\<rparr>)\<rparr>)
   \<and> Operation no_cuda 0 3 [1, 1] True fresh_op two_leaves = Inr twice_listed
   \<and> ops twice_listed 1 = Some (fresh_op\<lparr>consumers := [3, 3]\<rparr>)"
proof -
  have "Operation no_cuda 0 3 [1, 1] True fresh_op two_leaves = Inr twice_listed"
    by (simp add: Operation_def ctor_body_def add_consumer_def add_consumer_op_def update_op_def
          then_do_def map_insert_def no_cuda_def two_leaves_def fresh_op_fields)
       (simp add: twice_listed_def fresh_op_def NULL_def fun_upd_twist)
  then show ?thesis
    by (simp add: add_consumer_def add_consumer_op_def update_op_def then_do_def two_leaves_def
          twice_listed_def fresh_op_fields)
qed

text \<open>
  C8, as amended. The consumers of a node are a sequence that keeps duplicates:
  \<open>add_consumer\<close> appends one entry at the end, two calls with the same consumer append
  two entries, and the construction of a node with \<open>needs_grad = true\<close> appends to an
  input's list one entry for every time that input occurs among the inputs.
\<close>

theorem add_consumer_appends:
  assumes "ops h this = Some node"
  shows "add_consumer this c h
         = Inr (h\<lparr>ops := (ops h)(this \<mapsto> node\<lparr>consumers := consumers node @ [c]\<rparr>)\<rparr>)
         \<and> then_do (add_consumer this c h) (add_consumer this c)
             = Inr (h\<lparr>ops := (ops h)(this \<mapsto> node\<lparr>consumers := consumers node @ [c, c]\<rparr>)\<rparr>)
         \<and> (\<forall>cfg fuel new ins raw h'.
               Operation cfg fuel new ins True raw h = Inr h' \<longrightarrow> new \<noteq> this \<longrightarrow>
               (\<exists>node'. ops h' this = Some node'
                   \<and> consumers node' = consumers node @ replicate (count_list ins this) new))"
proof (intro conjI allI impI)
  show "add_consumer this c h
         = Inr (h\<lparr>ops := (ops h)(this \<mapsto> node\<lparr>consumers := consumers node @ [c]\<rparr>)\<rparr>)"
    using assms by (rule add_consumer_live)
  show "then_do (add_consumer this c h) (add_consumer this c)
         = Inr (h\<lparr>ops := (ops h)(this \<mapsto> node\<lparr>consumers := consumers node @ [c, c]\<rparr>)\<rparr>)"
    using assms by (simp add: add_consumer_def add_consumer_op_def update_op_def then_do_def)
next
  fix cfg fuel new ins and raw :: "'a operation_scheme" and h'
  assume run: "Operation cfg fuel new ins True raw h = Inr h'" and new: "new \<noteq> this"
  from Operation_input_consumers [OF run new [symmetric] assms]
  show "\<exists>node'. ops h' this = Some node'
          \<and> consumers node' = consumers node @ replicate (count_list ins this) new"
    by simp
qed

text \<open>The amended statement at the leaf 1.\<close>

theorem add_consumer_appends_witness:
  "ops two_leaves 1 = Some fresh_op
   \<and> add_consumer 1 3 two_leaves
       = Inr (two_leaves\<lparr>ops := (ops two_leaves)(1 \<mapsto> fresh_op\<lparr>consumers := consumers fresh_op @ [3]\<rparr>)\<rparr>)
   \<and> Operation no_cuda 0 3 [1, 2] True fresh_op two_leaves = Inr built_graph
   \<and> (\<exists>node'. ops built_graph 1 = Some node'
          \<and> consumers node' = consumers fresh_op @ replicate (count_list [1, 2 :: ptr] 1) 3)"
proof -
  have a: "ops two_leaves 1 = Some fresh_op" by (simp add: two_leaves_def)
  have b: "(3::ptr) \<noteq> 1" by simp
  from add_consumer_appends [OF a, of 3] built_graph_constructed a b show ?thesis
    by blast
qed

subsection \<open>The execution context\<close>

lemma cuda_exec_context_reaches:
  assumes "cuda_exec_context n this c h = Inr h'"
  shows "reaches h' r p \<longleftrightarrow> reaches h r p"
proof -
  have cf: "context_free (inputs :: 'a operation_scheme \<Rightarrow> ptr list)"
    by (simp add: context_free_def)
  have same: "map_option inputs (ops h' q) = map_option inputs (ops h q)" for q
    by (rule cuda_exec_context_frame [OF cf assms])
  show ?thesis
  proof
    assume "reaches h' r p"
    then show "reaches h r p" by (rule same_inputs_reaches [rotated]) (simp add: same)
  next
    assume "reaches h r p"
    then show "reaches h' r p" by (rule same_inputs_reaches [rotated]) (simp add: same)
  qed
qed

lemma cuda_exec_context_reports:
  assumes "cuda_exec_context n this c h = Inr h'" and "reaches h this p"
  shows "reports_context c h' p"
  using cuda_exec_context_effect [OF assms]
  by (auto simp: reports_context_def get_custream_def get_cublas_handle_def get_cudnn_handle_def)

text \<open>
  C5. After \<open>cuda_exec_context\<close> has returned, every node reachable from the receiver
  through the input edges reports the stream and the two handles of the context; after two
  calls with two contexts every such node reports the second context, in all three members,
  so none of them holds the stream of one context and a handle of the other. The call
  returns whenever the graph below the receiver is closed and its depth is within the fuel.
\<close>

theorem cuda_exec_context_reaches_all:
  "(cuda_exec_context fuel this c h = Inr h' \<longrightarrow> reaches h this p \<longrightarrow> reports_context c h' p)
   \<and> (cuda_exec_context fuel this c1 h = Inr h1 \<longrightarrow> cuda_exec_context fuel' this c2 h1 = Inr h2 \<longrightarrow>
        reaches h this p \<longrightarrow> reports_context c2 h2 p)
   \<and> (closed fuel h this \<longrightarrow> (\<exists>h'. cuda_exec_context fuel this c h = Inr h'))"
proof (intro conjI impI)
  assume "cuda_exec_context fuel this c h = Inr h'" and "reaches h this p"
  then show "reports_context c h' p" by (rule cuda_exec_context_reports)
next
  assume a: "cuda_exec_context fuel this c1 h = Inr h1"
    and b: "cuda_exec_context fuel' this c2 h1 = Inr h2" and r: "reaches h this p"
  from r have "reaches h1 this p" by (simp add: cuda_exec_context_reaches [OF a])
  with b show "reports_context c2 h2 p" by (rule cuda_exec_context_reports)
next
  assume "closed fuel h this"
  then show "\<exists>h'. cuda_exec_context fuel this c h = Inr h'" by (rule cuda_exec_context_returns)
qed

lemma test_graph_in_context:
  "cuda_exec_context 2 3 c test_graph = Inr (test_graph_in c)"
  "cuda_exec_context 2 3 c' (test_graph_in c) = Inr (test_graph_in c')"
  by (simp_all add: cuda_exec_context_def numeral_2_eq_2 then_do_def update_op_def update_tensor_def
        tensor_set_custream_def tensor_set_cublas_handle_def test_graph_def test_graph_in_def
        in_context_def top_op_fields fresh_op_fields NULL_def fun_upd_twist)

lemma test_graph_reaches: "reaches test_graph 3 1"
proof -
  have "ops test_graph 3 = Some (top_op\<lparr>output_tensor := 10\<rparr>)" by (simp add: test_graph_def)
  moreover have "1 \<in> set (inputs (top_op\<lparr>output_tensor := 10\<rparr>))" by (simp add: top_op_fields)
  ultimately show ?thesis using reaches_self by (rule reaches_input)
qed

text \<open>Two contexts applied in turn at the node 3 of the test graph, read at the leaf 1.\<close>

theorem cuda_exec_context_reaches_all_witness:
  "cuda_exec_context 2 3 test_ctx test_graph = Inr (test_graph_in test_ctx)
   \<and> cuda_exec_context 2 3 other_ctx (test_graph_in test_ctx) = Inr (test_graph_in other_ctx)
   \<and> reaches test_graph 3 1 \<and> closed 2 test_graph 3
   \<and> reports_context test_ctx (test_graph_in test_ctx) 1
   \<and> reports_context other_ctx (test_graph_in other_ctx) 1
   \<and> (\<exists>h'. cuda_exec_context 2 3 test_ctx test_graph = Inr h')"
proof -
  have c: "closed 2 test_graph 3"
    by (simp add: numeral_2_eq_2 test_graph_def top_op_fields fresh_op_fields)
  from cuda_exec_context_reaches_all
         [of 2 3 test_ctx test_graph "test_graph_in test_ctx" 1 test_ctx "test_graph_in test_ctx"
             2 other_ctx "test_graph_in other_ctx"]
       test_graph_in_context test_graph_reaches c
  show ?thesis by blast
qed


text \<open>
  C6 fails on the code: after the context with the cuDNN handle 9 has been applied at the
  node 3, its output tensor has the stream 7 and the cuBLAS handle 8 of the context, and
  still the cuDNN handle 0 that it had before.
\<close>

theorem cuda_exec_context_skips_tensor_cudnn_handle:
  "ops test_graph 3 = Some (top_op\<lparr>output_tensor := 10\<rparr>)
   \<and> output_tensor (top_op\<lparr>output_tensor := 10\<rparr>) = 10 \<and> 10 \<noteq> NULL
   \<and> tensors test_graph 10 = Some zero_tensor
   \<and> cuda_exec_context 2 3 test_ctx test_graph = Inr (test_graph_in test_ctx)
   \<and> tensors (test_graph_in test_ctx) 10
       = Some \<lparr>tensor_custream = 7, tensor_cudnn_handle = 0, tensor_cublas_handle = 8\<rparr>
   \<and> ctx_cudnn_handle test_ctx = 9"
  using test_graph_in_context(1) [of test_ctx]
  by (simp add: test_graph_def test_graph_in_def test_ctx_def zero_tensor_def NULL_def)

text \<open>
  C6, as amended. For every node reachable from the receiver whose output tensor is not
  null, \<open>cuda_exec_context\<close> sets the stream and the cuBLAS handle of that tensor to
  those of the context, and leaves every other field of the tensor, its cuDNN handle
  among them, as it was.
\<close>

theorem cuda_exec_context_updates_tensor:
  assumes "cuda_exec_context fuel this c h = Inr h'" and "reaches h this p"
    and "ops h p = Some node" and "output_tensor node \<noteq> NULL"
  shows "\<exists>t. tensors h (output_tensor node) = Some t
           \<and> tensors h' (output_tensor node)
               = Some (t\<lparr>tensor_custream := ctx_stream c,
                         tensor_cublas_handle := ctx_cublas_handle c\<rparr>)"
  using cuda_exec_context_effect [OF assms(1,2)] assms(3,4) by auto

text \<open>The amended statement at the node 3 of the test graph and its tensor 10.\<close>

theorem cuda_exec_context_updates_tensor_witness:
  "cuda_exec_context 2 3 test_ctx test_graph = Inr (test_graph_in test_ctx)
   \<and> reaches test_graph 3 3
   \<and> ops test_graph 3 = Some (top_op\<lparr>output_tensor := 10\<rparr>)
   \<and> output_tensor (top_op\<lparr>output_tensor := 10\<rparr>) \<noteq> NULL
   \<and> (\<exists>t. tensors test_graph (output_tensor (top_op\<lparr>output_tensor := 10\<rparr>)) = Some t
          \<and> tensors (test_graph_in test_ctx) (output_tensor (top_op\<lparr>output_tensor := 10\<rparr>))
              = Some (t\<lparr>tensor_custream := ctx_stream test_ctx,
                        tensor_cublas_handle := ctx_cublas_handle test_ctx\<rparr>))"
proof -
  have a: "cuda_exec_context 2 3 test_ctx test_graph = Inr (test_graph_in test_ctx)"
    by (rule test_graph_in_context(1))
  have b: "reaches test_graph 3 3" by (rule reaches_self)
  have c: "ops test_graph 3 = Some (top_op\<lparr>output_tensor := 10\<rparr>)"
    by (simp add: test_graph_def)
  have d: "output_tensor (top_op\<lparr>output_tensor := 10\<rparr>) \<noteq> NULL"
    by (simp add: NULL_def)
  from cuda_exec_context_updates_tensor [OF a b c d] a b c d show ?thesis
    by blast
qed

subsection \<open>Reset\<close>

lemma for_each_invariant:
  assumes step: "\<And>x s s'. body x s = Inr s' \<Longrightarrow> I s \<Longrightarrow> I s'"
  shows "for_each body xs s = Inr s' \<Longrightarrow> I s \<Longrightarrow> I s'"
proof (induction xs arbitrary: s)
  case Nil
  then show ?case by simp
next
  case (Cons x xs)
  from Cons.prems(1) obtain s1 where s1: "body x s = Inr s1" and rest: "for_each body xs s1 = Inr s'"
    by (auto split: sum.splits)
  from step [OF s1 Cons.prems(2)] have "I s1" .
  with rest show ?case by (rule Cons.IH)
qed

lemma invoke_stays_uncomputed:
  assumes rule: "\<And>t c v g s r s'. grad_rule t c v g s = Inr (r, s') \<Longrightarrow>
                   map_option has_been_computed (ops s' p) = map_option has_been_computed (ops s p)"
    and run: "invoke grad_rule fuel call h = Inr h'"
    and before: "map_option has_been_computed (ops h p) = Some False"
  shows "map_option has_been_computed (ops h' p) = Some False"
proof -
  have cf: "context_free (has_been_computed :: 'a operation_scheme \<Rightarrow> bool)"
    by (simp add: context_free_def)
  obtain this m where call: "call = (this, m)" by (cases call)
  show ?thesis
  proof (cases m)
    case Reset
    with run call before show ?thesis
      by (auto simp: reset_def reset_op_def update_op_def split: option.splits if_splits)
  next
    case (Add_consumer c)
    with run call before show ?thesis
      by (auto simp: add_consumer_def add_consumer_op_def update_op_def split: option.splits if_splits)
  next
    case (Grad c var g recompute)
    with run call obtain ret where g: "grad grad_rule this c var g recompute h = Inr (ret, h')"
      by (auto elim!: then_do_InrE)
    from g obtain node where node: "ops h this = Some node"
      by (cases "ops h this") (simp_all add: grad_def)
    show ?thesis
    proof (cases recompute)
      case True
      with g node have "grad_rule this c var g h = Inr (ret, h')" by (simp add: grad_def)
      from rule [OF this] before show ?thesis by simp
    next
      case False
      let ?h1 = "h\<lparr>ops := (ops h)(this \<mapsto> node\<lparr>grad_cache := snd (map_index (grad_cache node) var)\<rparr>)\<rparr>"
      have h1: "map_option has_been_computed (ops ?h1 p) = Some False"
        using before node by auto
      from g node False have "h' = ?h1 \<or> grad_rule this c var g ?h1 = Inr (ret, h')"
        by (auto simp: grad_def Let_def split: prod.splits if_splits)
      then show ?thesis
      proof
        assume "h' = ?h1"
        with h1 show ?thesis by simp
      next
        assume "grad_rule this c var g ?h1 = Inr (ret, h')"
        from rule [OF this] h1 show ?thesis by simp
      qed
    qed
  next
    case (Cuda_exec_context c)
    with run call have "cuda_exec_context fuel this c h = Inr h'" by simp
    from cuda_exec_context_frame [OF cf this, of p] before show ?thesis by simp
  next
    case (Set_custream v)
    with run call have "set_custream fuel this v h = Inr h'" by simp
    from setters_frame(1) [OF cf this, of p] before show ?thesis by simp
  next
    case (Set_cudnn_handle v)
    with run call have "set_cudnn_handle fuel this v h = Inr h'" by simp
    from setters_frame(3) [OF cf this, of p] before show ?thesis by simp
  next
    case (Set_cublas_handle v)
    with run call have "set_cublas_handle fuel this v h = Inr h'" by simp
    from setters_frame(2) [OF cf this, of p] before show ?thesis by simp
  next
    case (Set_async v)
    with run call have "set_async fuel this v h = Inr h'" by simp
    from setters_frame(4) [OF cf this, of p] before show ?thesis by simp
  qed
qed

lemma run_stays_uncomputed:
  assumes rule: "\<And>t c v g s r s'. grad_rule t c v g s = Inr (r, s') \<Longrightarrow>
                   map_option has_been_computed (ops s' p) = map_option has_been_computed (ops s p)"
    and run: "run grad_rule fuel calls h = Inr h'"
    and before: "map_option has_been_computed (ops h p) = Some False"
  shows "map_option has_been_computed (ops h' p) = Some False"
  using run [unfolded run_def] before
  by (rule for_each_invariant [where body = "invoke grad_rule fuel", rotated])
     (rule invoke_stays_uncomputed [OF rule])

text \<open>
  C7. \<open>reset\<close> returns the store in which the node has both flags false and every
  other member as before (inputs, consumers, output shape, gradient cache, name, output
  tensor and the rest), and in which no other node and no tensor has changed. After it,
  no sequence of calls of the other methods of the base class, \<open>eval\<close> left out, makes
  the node computed again, as long as the local gradient rule of the derived classes does
  not set the flag either.
\<close>

theorem reset_clears_flags_only:
  assumes "ops h this = Some node"
  shows "reset this h
         = Inr (h\<lparr>ops := (ops h)(this \<mapsto> node\<lparr>has_been_computed := False,
                                                has_grad_been_computed := False\<rparr>)\<rparr>)
         \<and> ((\<forall>t c v g s r s'. grad_rule t c v g s = Inr (r, s') \<longrightarrow>
                map_option has_been_computed (ops s' this) = map_option has_been_computed (ops s this))
              \<longrightarrow> (\<forall>h1 h2. reset this h = Inr h1 \<longrightarrow> run grad_rule fuel calls h1 = Inr h2 \<longrightarrow>
                      map_option has_been_computed (ops h2 this) = Some False))"
proof (intro conjI impI allI)
  show r: "reset this h
         = Inr (h\<lparr>ops := (ops h)(this \<mapsto> node\<lparr>has_been_computed := False,
                                                has_grad_been_computed := False\<rparr>)\<rparr>)"
    using assms by (simp add: reset_def reset_op_def update_op_def)
  fix h1 h2
  assume rule: "\<forall>t c v g s r s'. grad_rule t c v g s = Inr (r, s') \<longrightarrow>
                map_option has_been_computed (ops s' this) = map_option has_been_computed (ops s this)"
    and a: "reset this h = Inr h1" and b: "run grad_rule fuel calls h1 = Inr h2"
  from a r have "map_option has_been_computed (ops h1 this) = Some False" by auto
  with b show "map_option has_been_computed (ops h2 this) = Some False"
    by (rule run_stays_uncomputed [rotated]) (simp add: rule)
qed

text \<open>
  The node 3, once computed, is reset and then sent five calls of other methods; the
  counter of its forward rule stays at 1 through the reset.
\<close>

theorem reset_clears_flags_only_witness:
  "ops test_graph_computed 3
     = Some (top_op\<lparr>output_tensor := 10, has_been_computed := True, forward_calls := 1\<rparr>)
   \<and> reset 3 test_graph_computed
       = Inr (test_graph_computed\<lparr>ops := (ops test_graph_computed)
                (3 \<mapsto> top_op\<lparr>output_tensor := 10, has_been_computed := True, forward_calls := 1,
                               has_been_computed := False, has_grad_been_computed := False\<rparr>)\<rparr>)
   \<and> (\<exists>h2. run test_grad 2 [(3, Add_consumer 4), (3, Grad 4 5 11 False), (1, Reset),
                             (3, Set_async True), (3, Cuda_exec_context test_ctx)]
               (test_graph_computed\<lparr>ops := (ops test_graph_computed)
                (3 \<mapsto> top_op\<lparr>output_tensor := 10, has_been_computed := True, forward_calls := 1,
                               has_been_computed := False, has_grad_been_computed := False\<rparr>)\<rparr>)
             = Inr h2
          \<and> map_option has_been_computed (ops h2 3) = Some False)"
proof -
  let ?calls = "[(3, Add_consumer 4), (3, Grad 4 5 11 False), (1, Reset),
                 (3, Set_async True), (3, Cuda_exec_context test_ctx)]"
  let ?node = "top_op\<lparr>output_tensor := 10, has_been_computed := True, forward_calls := 1\<rparr>"
  let ?h1 = "test_graph_computed\<lparr>ops := (ops test_graph_computed)
                (3 \<mapsto> ?node\<lparr>has_been_computed := False, has_grad_been_computed := False\<rparr>)\<rparr>"
  have a: "ops test_graph_computed 3 = Some ?node"
    by (simp add: test_graph_computed_def)
  have b: "\<forall>t c v g s r s'. test_grad t c v g s = Inr (r, s') \<longrightarrow>
             map_option has_been_computed (ops s' 3) = map_option has_been_computed (ops s 3)"
    by (simp add: test_grad_def)
  have "\<exists>h2. run test_grad 2 ?calls ?h1 = Inr h2"
    by (simp add: run_def reset_def reset_op_def add_consumer_def add_consumer_op_def grad_def
          map_index_def test_grad_def cuda_exec_context_def numeral_2_eq_2 then_do_def
          update_op_def update_tensor_def tensor_set_custream_def tensor_set_cublas_handle_def
          test_graph_computed_def top_op_fields fresh_op_fields NULL_def)
  then obtain h2 where d: "run test_grad 2 ?calls ?h1 = Inr h2" ..
  from reset_clears_flags_only [OF a, of test_grad 2 ?calls] b d
  have "reset 3 test_graph_computed = Inr ?h1"
    and "map_option has_been_computed (ops h2 3) = Some False" by blast+
  with a d show ?thesis by simp
qed

end
